theory Spec2Isabelle
  imports Complex_Main "HOL-Library.Word"
begin

unbundle bit_operations_syntax

section \<open>The one-dimensional row reader of zxing-cpp (ODRowReader.h)\<close>

text \<open>
  A shallow embedding of the static helpers of \<open>ZXing::OneD::RowReader\<close>:
  \<open>FindPattern\<close>, \<open>RecordPattern\<close>, \<open>RecordPatternInReverse\<close>,
  \<open>PatternMatchVariance\<close>, \<open>DecodeDigit\<close>, \<open>NarrowWideThreshold\<close> and
  \<open>ToNarrowWidePattern\<close>.
\<close>

subsection \<open>Rows, iterators and run extraction\<close>

text \<open>
  A row is the sequence of its pixels (\<open>True\<close> is black). The templates
  \<open>FindPattern\<close> and \<open>RecordPattern\<close> are instantiated at two iterator types: the
  row's own iterator and, in \<open>RecordPatternInReverse\<close>, \<open>std::reverse_iterator\<close> of
  it. The parameter \<open>traversal\<close> selects the instantiation, and an iterator is
  represented by the index it points at, a reverse iterator by its \<open>base()\<close>: so
  \<open>*it\<close> reads \<open>row[p]\<close> going forward and \<open>row[p - 1]\<close> in reverse, \<open>++it\<close>
  increments the index going forward and decrements the base in reverse, and
  \<open>last - first\<close> is the number of increments from \<open>first\<close> to \<open>last\<close>.
  Counters are \<open>int\<close>s, as in every \<open>std::array<int, N>\<close> the readers pass; a run is
  never longer than a row, so the \<open>static_cast\<close> of a distance to \<open>int\<close> loses nothing.
\<close>

type_synonym Row = "bool list"

datatype traversal = Forward | Reverse

definition deref :: "traversal \<Rightarrow> Row \<Rightarrow> nat \<Rightarrow> bool" where
  "deref d row p = (case d of Forward \<Rightarrow> row ! p | Reverse \<Rightarrow> row ! (p - 1))"

definition advance :: "traversal \<Rightarrow> nat \<Rightarrow> int \<Rightarrow> nat" where
  "advance d p n = (case d of Forward \<Rightarrow> nat (int p + n) | Reverse \<Rightarrow> nat (int p - n))"

definition distance :: "traversal \<Rightarrow> nat \<Rightarrow> nat \<Rightarrow> int" where
  "distance d p q = (case d of Forward \<Rightarrow> int q - int p | Reverse \<Rightarrow> int p - int q)"

definition before :: "traversal \<Rightarrow> nat \<Rightarrow> nat \<Rightarrow> bool" where
  "before d p q = (case d of Forward \<Rightarrow> p < q | Reverse \<Rightarrow> q < p)"

definition remaining :: "traversal \<Rightarrow> nat \<Rightarrow> nat \<Rightarrow> nat" where
  "remaining d p q = (case d of Forward \<Rightarrow> q - p | Reverse \<Rightarrow> p - q)"

text \<open>
  Modelled from the spec: \<open>BitArray::getNextSetTo\<close> is declared in \<open>BitArray.h\<close>, which
  is not part of the sources. It is the row's query for the next position, at or after
  \<open>p\<close> and before \<open>end\<close> in the direction of traversal, whose pixel equals \<open>v\<close>;
  \<open>end\<close> when there is none.
\<close>

function getNextSetTo :: "traversal \<Rightarrow> Row \<Rightarrow> nat \<Rightarrow> nat \<Rightarrow> bool \<Rightarrow> nat" where
  "getNextSetTo d row p end' v =
     (if before d p end' \<and> deref d row p \<noteq> v then getNextSetTo d row (advance d p 1) end' v
      else p)"
  by pat_completeness auto
termination
  by (relation "measure (\<lambda>(d, row, p, end', v). remaining d p end')")
     (auto simp: before_def advance_def remaining_def split: traversal.splits)

declare getNextSetTo.simps [simp del]

text \<open>
  The \<open>while\<close> loop of \<open>FindPattern\<close>, entered with the iterators \<open>li\<close> and \<open>i\<close>
  and the position \<open>currentCounter\<close> in \<open>counters\<close>. The result is the returned range
  with the final contents of \<open>counters\<close> (the container is passed by reference).
  \<open>None\<close> stands for undefined behaviour of the C++ code: dereferencing \<open>i\<close> outside
  \<open>[begin, end)\<close>, writing through the end iterator of \<open>counters\<close>, and reading
  \<open>counters[1]\<close> of a container with fewer than two elements. After a rejected window
  \<open>std::copy\<close> moves \<open>counters[2..N-1]\<close> to the front and leaves the last two slots as
  they were.
\<close>

function FindPattern_loop ::
  "traversal \<Rightarrow> Row \<Rightarrow> (nat \<Rightarrow> nat \<Rightarrow> int list \<Rightarrow> bool) \<Rightarrow> nat \<Rightarrow> nat \<Rightarrow> nat \<Rightarrow> nat \<Rightarrow> nat \<Rightarrow> int list
     \<Rightarrow> ((nat \<times> nat) \<times> int list) option" where
  "FindPattern_loop d row match end' begin' li i currentCounter counters =
     (if \<not> before d i end' then None
      else
        let i' = getNextSetTo d row i end' (\<not> deref d row i) in
        if i' \<noteq> end' then
          (if length counters \<le> currentCounter then None
           else
             let counters = counters[currentCounter := distance d li i'];
                 currentCounter = currentCounter + 1 in
             if currentCounter = length counters then
               (if match begin' i' counters then Some ((begin', i'), counters)
                else if length counters < 2 then None
                else FindPattern_loop d row match end'
                       (advance d begin' (counters ! 0 + counters ! 1)) i' i'
                       (currentCounter - 2)
                       (drop 2 counters @ drop (length counters - 2) counters))
             else FindPattern_loop d row match end' begin' i' i' currentCounter counters)
        else
          (if length counters \<le> currentCounter then None
           else Some ((end', end'), counters[currentCounter := distance d li i'])))"
  by pat_completeness auto
termination
proof -
  have progress: "remaining d (getNextSetTo d row p end' v) end' < remaining d p end'"
    if "before d p end'" and "deref d row p \<noteq> v" for d row p end' v
    using that
  proof (induction d row p end' v rule: getNextSetTo.induct)
    case (1 d row p end' v)
    show ?case
    proof (cases "before d (advance d p 1) end' \<and> deref d row (advance d p 1) \<noteq> v")
      case True
      with "1.IH" "1.prems" have "remaining d (getNextSetTo d row (advance d p 1) end' v) end'
          < remaining d (advance d p 1) end'" by blast
      moreover have "remaining d (advance d p 1) end' < remaining d p end'"
        using "1.prems" by (auto simp: before_def advance_def remaining_def split: traversal.splits)
      ultimately show ?thesis using "1.prems"
        by (subst getNextSetTo.simps) simp
    next
      case False
      then have "getNextSetTo d row (advance d p 1) end' v = advance d p 1"
        by (subst getNextSetTo.simps) auto
      then have "getNextSetTo d row p end' v = advance d p 1"
        using "1.prems" by (subst getNextSetTo.simps) simp
      then show ?thesis using "1.prems"
        by (auto simp: before_def advance_def remaining_def split: traversal.splits)
    qed
  qed
  show ?thesis
    by (relation "measure (\<lambda>(d, row, match, end', begin', li, i, cc, cs). remaining d i end')")
       (auto intro: progress)
qed

declare FindPattern_loop.simps [simp del]

text \<open>
  \<open>FindPattern\<close>: an empty range is "not found" at once, with \<open>counters\<close> untouched;
  otherwise the loop starts at \<open>begin\<close> with the first counter. "Not found" is the empty
  range \<open>(end, end)\<close>. The names \<open>begin\<close>, \<open>end\<close> and \<open>range\<close> of the source are
  taken in Isabelle; the model writes \<open>begin'\<close>, \<open>end'\<close> and \<open>found\<close>.
\<close>

definition FindPattern ::
  "traversal \<Rightarrow> Row \<Rightarrow> nat \<Rightarrow> nat \<Rightarrow> int list \<Rightarrow> (nat \<Rightarrow> nat \<Rightarrow> int list \<Rightarrow> bool)
     \<Rightarrow> ((nat \<times> nat) \<times> int list) option" where
  "FindPattern d row begin' end' counters match =
     (if begin' = end' then Some ((end', end'), counters)
      else FindPattern_loop d row match end' begin' begin' begin' 0 counters)"

text \<open>
  \<open>RecordPattern\<close> zeroes the last counter, searches with the predicate that accepts
  every window, and accepts a scan that ran into \<open>end\<close> when the last counter was
  written. \<open>counters.back()\<close> of an empty container is undefined: \<open>None\<close>.
\<close>

definition RecordPattern ::
  "traversal \<Rightarrow> Row \<Rightarrow> nat \<Rightarrow> nat \<Rightarrow> int list \<Rightarrow> ((nat \<times> nat) \<times> int list) option" where
  "RecordPattern d row begin' end' counters =
     (if counters = [] then None
      else
        let counters = counters[length counters - 1 := 0] in
        case FindPattern d row begin' end' counters (\<lambda>b e c. True) of
          None \<Rightarrow> None
        | Some (found, counters) \<Rightarrow>
            if snd found = end' \<and> last counters \<noteq> 0 then Some ((begin', end'), counters)
            else Some (found, counters))"

text \<open>
  \<open>RecordPatternInReverse\<close> runs \<open>RecordPattern\<close> on the reverse iterators
  \<open>rbegin(end)\<close> and \<open>rend(begin)\<close>, reverses the counters and returns
  \<open>{range.end.base(), range.begin.base()}\<close>.
\<close>

definition RecordPatternInReverse ::
  "Row \<Rightarrow> nat \<Rightarrow> nat \<Rightarrow> int list \<Rightarrow> ((nat \<times> nat) \<times> int list) option" where
  "RecordPatternInReverse row begin' end' counters =
     (let rbegin = end'; rend = begin' in
      case RecordPattern Reverse row rbegin rend counters of
        None \<Rightarrow> None
      | Some (found, counters) \<Rightarrow> Some ((snd found, fst found), rev counters))"

text \<open>
  The vocabulary of the specification: the pixels of a row between two positions, the
  widths of the maximal runs of equal pixels of a pixel sequence, the ranges an iterator
  pair may denote, and the pixels such a range traverses, in the order of traversal.
\<close>

definition segment :: "Row \<Rightarrow> nat \<Rightarrow> nat \<Rightarrow> Row" where
  "segment row p q = take (q - p) (drop p row)"

function runs :: "bool list \<Rightarrow> nat list" where
  "runs [] = []"
| "runs (x # xs) = Suc (length (takeWhile (\<lambda>y. y = x) xs)) # runs (dropWhile (\<lambda>y. y = x) xs)"
  by pat_completeness auto
termination
  by (relation "measure length") (auto simp: length_dropWhile_le le_imp_less_Suc)

definition valid_range :: "traversal \<Rightarrow> Row \<Rightarrow> nat \<Rightarrow> nat \<Rightarrow> bool" where
  "valid_range d row p q =
     (case d of Forward \<Rightarrow> p \<le> q \<and> q \<le> length row | Reverse \<Rightarrow> q \<le> p \<and> p \<le> length row)"

definition traversed :: "traversal \<Rightarrow> Row \<Rightarrow> nat \<Rightarrow> nat \<Rightarrow> bool list" where
  "traversed d row p q = (case d of Forward \<Rightarrow> segment row p q | Reverse \<Rightarrow> rev (segment row q p))"

definition mirror :: "nat \<Rightarrow> (nat \<times> nat) \<times> int list \<Rightarrow> (nat \<times> nat) \<times> int list" where
  "mirror n r = ((n - fst (fst r), n - snd (fst r)), snd r)"

text \<open>
  Section 4.2 of the specification, as a function of the run widths \<open>rs\<close> of the range:
  the window that starts at \<open>b\<close> consists of the first \<open>N\<close> runs, it ends where
  \<open>b\<close> advanced by the sum of their widths points, and its counters are their widths.
  A window is tried only if a further run follows it. The first window that \<open>match\<close>
  accepts is the result (start, end, widths). After a rejected window the window start
  advances by the combined width of its first two runs and the next window consists of
  the runs from the third one on: its first \<open>N - 2\<close> counters are the last \<open>N - 2\<close>
  counters of the rejected window and its last two are the widths of the next two runs.
\<close>

function scan_windows ::
  "traversal \<Rightarrow> (nat \<Rightarrow> nat \<Rightarrow> int list \<Rightarrow> bool) \<Rightarrow> nat \<Rightarrow> nat list \<Rightarrow> nat
     \<Rightarrow> (nat \<times> nat \<times> nat list) option" where
  "scan_windows d match b rs N =
     (if N < 2 \<or> length rs \<le> N then None
      else if match b (advance d b (int (sum_list (take N rs)))) (map int (take N rs))
        then Some (b, advance d b (int (sum_list (take N rs))), take N rs)
      else scan_windows d match (advance d b (int (rs ! 0) + int (rs ! 1))) (drop 2 rs) N)"
  by pat_completeness auto
termination
  by (relation "measure (\<lambda>(d, match, b, rs, N). length rs)") auto

declare scan_windows.simps [simp del]

text \<open>Two rows used to run the functions on concrete input.\<close>

definition sample_row :: Row where
  "sample_row = [True, True, False, False, False, True, False]"

definition long_row :: Row where
  "long_row = [True, True, False, False, False, True, False, True, True, False]"

text \<open>A predicate that accepts a window by the value of its third counter.\<close>

definition third_is :: "int \<Rightarrow> nat \<Rightarrow> nat \<Rightarrow> int list \<Rightarrow> bool" where
  "third_is v b e c = (c ! 2 = v)"

subsection \<open>Fit scoring\<close>

text \<open>
  Modelled from the spec: \<open>PatternMatchVariance(const int*, const int*, size_t, float)\<close>
  is only declared in the header; its definition (\<open>ODRowReader.cpp\<close>) is not part of
  the sources. Section 4.3 of the specification defines it: with
  \<open>total = sum(counters)\<close>, \<open>patternTotal = sum(pattern)\<close> and
  \<open>unitWidth = total / patternTotal\<close>, position \<open>i\<close> has the expected width
  \<open>pattern[i] * unitWidth\<close>, the deviation \<open>|counters[i] - expected|\<close> and the
  individual ratio \<open>deviation / expected\<close>; if a ratio exceeds
  \<open>maxIndividualVariance\<close> the result is a sentinel larger than any acceptable score,
  otherwise it is \<open>totalDeviation / total\<close>. The arithmetic is that of the reals, as in
  the specification; the sentinel is the largest finite \<open>float\<close>. The specification
  guards the ratio against a division by zero without saying what the guard yields: the
  model lets such a position pass, and the theorems below assume positive pattern entries
  and a positive total, where every expected width is positive.
\<close>

definition sentinel :: real where
  "sentinel = 340282346638528859811704183484516925440"

definition expected_width :: "real \<Rightarrow> int \<Rightarrow> real" where
  "expected_width unitWidth p = real_of_int p * unitWidth"

definition deviation :: "real \<Rightarrow> int \<times> int \<Rightarrow> real" where
  "deviation unitWidth cp = \<bar>real_of_int (fst cp) - expected_width unitWidth (snd cp)\<bar>"

definition individual_ratio :: "real \<Rightarrow> int \<times> int \<Rightarrow> real" where
  "individual_ratio unitWidth cp =
     (if expected_width unitWidth (snd cp) = 0 then 0
      else deviation unitWidth cp / expected_width unitWidth (snd cp))"

definition PatternMatchVariance_raw :: "int list \<Rightarrow> int list \<Rightarrow> nat \<Rightarrow> real \<Rightarrow> real" where
  "PatternMatchVariance_raw counters pattern length' maxIndividualVariance =
     (let cs = take length' counters;
          ps = take length' pattern;
          total = real_of_int (sum_list cs);
          patternTotal = real_of_int (sum_list ps);
          unitWidth = total / patternTotal in
      if list_ex (\<lambda>cp. maxIndividualVariance < individual_ratio unitWidth cp) (zip cs ps)
      then sentinel
      else sum_list (map (deviation unitWidth) (zip cs ps)) / total)"

text \<open>
  The template wrapper of the header: it asserts \<open>counters.size() <= pattern.size()\<close>
  and passes \<open>counters.size()\<close> as the length. \<open>None\<close> is the failed assertion.
\<close>

definition PatternMatchVariance :: "int list \<Rightarrow> int list \<Rightarrow> real \<Rightarrow> real option" where
  "PatternMatchVariance counters pattern maxIndividualVariance =
     (if length counters \<le> length pattern
      then Some (PatternMatchVariance_raw counters pattern (length counters) maxIndividualVariance)
      else None)"

text \<open>
  The expected proportional value of position \<open>i\<close>,
  \<open>pattern[i] * sum(counters) / sum(pattern)\<close>, and what it means that counter \<open>i\<close>
  moves away from it when it is replaced by \<open>x'\<close>: it was at or above its expected value
  and grows, or at or below it and shrinks.
\<close>

definition expected_value :: "int list \<Rightarrow> int list \<Rightarrow> nat \<Rightarrow> real" where
  "expected_value counters pattern i =
     real_of_int (pattern ! i) * real_of_int (sum_list counters) / real_of_int (sum_list pattern)"

definition moves_away :: "int list \<Rightarrow> int list \<Rightarrow> nat \<Rightarrow> int \<Rightarrow> bool" where
  "moves_away counters pattern i x' =
     ((expected_value counters pattern i \<le> real_of_int (counters ! i) \<and> counters ! i \<le> x')
      \<or> (real_of_int (counters ! i) \<le> expected_value counters pattern i \<and> x' \<le> counters ! i))"

subsection \<open>DecodeDigit\<close>

text \<open>
  \<open>DecodeDigit\<close> scores the counters against every pattern and keeps the best index.
  The scoring function \<open>PatternMatchVariance\<close> is selected by overloading at the call
  site and defined outside the header, so the loop takes it as the parameter \<open>pmv\<close>.
  The C++ scores are \<open>float\<close>s; the loop only compares them with \<open><\<close> and \<open>==\<close>,
  and on floats that are not NaN both agree with the order of the reals, which is the
  type used here. The index is \<open>static_cast<int>(i)\<close>; pattern tables are far shorter
  than \<open>2^31\<close>, so the cast is the identity and the result is an unbounded \<open>int\<close>.
\<close>

definition INVALID_MATCH :: int where
  "INVALID_MATCH = -1"

text \<open>
  The body of the \<open>for\<close> loop, from index \<open>i\<close> on: \<open>ps\<close> are the patterns
  \<open>patterns[i], patterns[i+1], ...\<close> still to be visited.
\<close>

fun DecodeDigit_loop ::
  "('p \<Rightarrow> real) \<Rightarrow> bool \<Rightarrow> 'p list \<Rightarrow> nat \<Rightarrow> real \<Rightarrow> int \<Rightarrow> int" where
  "DecodeDigit_loop score requireUnambiguousMatch [] i bestVariance bestMatch = bestMatch"
| "DecodeDigit_loop score requireUnambiguousMatch (p # ps) i bestVariance bestMatch =
     (let variance = score p in
      if variance < bestVariance then
        DecodeDigit_loop score requireUnambiguousMatch ps (i + 1) variance (int i)
      else if requireUnambiguousMatch \<and> variance = bestVariance then
        DecodeDigit_loop score requireUnambiguousMatch ps (i + 1) bestVariance INVALID_MATCH
      else
        DecodeDigit_loop score requireUnambiguousMatch ps (i + 1) bestVariance bestMatch)"

definition DecodeDigit ::
  "('c \<Rightarrow> 'p \<Rightarrow> real \<Rightarrow> real) \<Rightarrow> 'c \<Rightarrow> 'p list \<Rightarrow> real \<Rightarrow> real \<Rightarrow> bool \<Rightarrow> int" where
  "DecodeDigit pmv counters patterns maxAvgVariance maxIndividualVariance requireUnambiguousMatch =
     DecodeDigit_loop (\<lambda>p. pmv counters p maxIndividualVariance) requireUnambiguousMatch
       patterns 0 maxAvgVariance INVALID_MATCH"

text \<open>
  The scores of all patterns, in table order: what the loop sees as \<open>variance\<close> at
  index \<open>i\<close> is \<open>variances pmv counters patterns maxIndividualVariance ! i\<close>.
\<close>

definition variances :: "('c \<Rightarrow> 'p \<Rightarrow> real \<Rightarrow> real) \<Rightarrow> 'c \<Rightarrow> 'p list \<Rightarrow> real \<Rightarrow> real list" where
  "variances pmv counters patterns maxIndividualVariance =
     map (\<lambda>p. pmv counters p maxIndividualVariance) patterns"

text \<open>A small scoring function, used to run the loop on concrete tables.\<close>

definition sample_variance :: "int \<Rightarrow> int \<Rightarrow> real \<Rightarrow> real" where
  "sample_variance c p v = \<bar>real_of_int c - real_of_int p\<bar> / 10"

subsection \<open>Narrow/wide classification\<close>

text \<open>
  Modelled from the spec: \<open>PatternView\<close> and \<open>BarAndSpaceI\<close> are declared in
  \<open>Pattern.h\<close>, which is not part of the sources. A \<open>PatternView\<close> is a window of run
  widths, read by index; a \<open>BarAndSpaceI\<close> is the spec's "BarAndSpace pair": a bar value
  and a space value, where an even index selects the bar and an odd index the space (the
  header reads \<open>M[i + 1]\<close> for \<open>i = 1\<close>, so the index is taken modulo 2). Widths are unsigned
  16-bit integers, the default-constructed pair \<open>{}\<close> is \<open>(0, 0)\<close>, and a pair is
  valid when neither component is 0.
\<close>

type_synonym PatternView = "16 word list"

record BarAndSpaceI =
  bar :: "16 word"
  space :: "16 word"

definition bs_get :: "BarAndSpaceI \<Rightarrow> nat \<Rightarrow> 16 word" where
  "bs_get p i = (if even i then bar p else space p)"

definition bs_set :: "BarAndSpaceI \<Rightarrow> nat \<Rightarrow> 16 word \<Rightarrow> BarAndSpaceI" where
  "bs_set p i v = (if even i then p\<lparr>bar := v\<rparr> else p\<lparr>space := v\<rparr>)"

definition bs_empty :: BarAndSpaceI where
  "bs_empty = \<lparr>bar = 0, space = 0\<rparr>"

definition isValid :: "BarAndSpaceI \<Rightarrow> bool" where
  "isValid p = (bar p \<noteq> 0 \<and> space p \<noteq> 0)"

text \<open>
  The first loop of \<open>NarrowWideThreshold\<close>: the running minimum \<open>m\<close> and maximum
  \<open>M\<close> per bar and per space, over \<open>view[i], view[i+1], ...\<close>.
\<close>

fun minmax_loop ::
  "PatternView \<Rightarrow> nat \<Rightarrow> BarAndSpaceI \<Rightarrow> BarAndSpaceI \<Rightarrow> BarAndSpaceI \<times> BarAndSpaceI" where
  "minmax_loop [] i m M = (m, M)"
| "minmax_loop (w # ws) i m M =
     minmax_loop ws (i + 1) (bs_set m i (min (bs_get m i) w)) (bs_set M i (max (bs_get M i) w))"

text \<open>
  The second loop, for \<open>i = 0, 1\<close>. The comparisons and the threshold are computed
  in \<open>int\<close> (integer promotion of the 16-bit operands, no overflow possible), and the
  threshold is narrowed to 16 bits when it is stored in \<open>res[i]\<close>.
\<close>

definition threshold_rejects :: "BarAndSpaceI \<Rightarrow> BarAndSpaceI \<Rightarrow> nat \<Rightarrow> bool" where
  "threshold_rejects m M i =
     (uint (bs_get M i) > 4 * (uint (bs_get m i) + 1)
      \<or> uint (bs_get M i) > 3 * uint (bs_get M (i + 1))
      \<or> uint (bs_get m i) > 2 * (uint (bs_get m (i + 1)) + 1))"

definition threshold_value :: "BarAndSpaceI \<Rightarrow> BarAndSpaceI \<Rightarrow> nat \<Rightarrow> 16 word" where
  "threshold_value m M i =
     word_of_int (max ((uint (bs_get m i) + uint (bs_get M i)) div 2) (uint (bs_get m i) * 3 div 2))"

definition NarrowWideThreshold :: "PatternView \<Rightarrow> BarAndSpaceI" where
  "NarrowWideThreshold view =
     (let (m, M) = minmax_loop view 0 \<lparr>bar = 65535, space = 65535\<rparr> \<lparr>bar = 0, space = 0\<rparr>;
          res = bs_empty in
      if threshold_rejects m M 0 then bs_empty
      else let res = bs_set res 0 (threshold_value m M 0) in
      if threshold_rejects m M 1 then bs_empty
      else let res = bs_set res 1 (threshold_value m M 1) in
      res)"

text \<open>
  The loop of \<open>ToNarrowWidePattern\<close>; \<open>None\<close> is the early \<open>return -1\<close>. The
  accumulated \<open>pattern\<close> is a C++ \<open>int\<close>; views hold one character (at most ten
  elements), so the shift never overflows and the model uses \<open>int\<close>; \<open>pattern << 1\<close> is
  \<open>push_bit 1 pattern\<close>.
\<close>

fun narrow_wide_loop :: "BarAndSpaceI \<Rightarrow> PatternView \<Rightarrow> nat \<Rightarrow> int \<Rightarrow> int option" where
  "narrow_wide_loop threshold [] i pattern = Some pattern"
| "narrow_wide_loop threshold (w # ws) i pattern =
     (if uint w > uint (bs_get threshold i) * 2 then None
      else narrow_wide_loop threshold ws (i + 1)
             (push_bit 1 pattern OR (if uint w > uint (bs_get threshold i) then 1 else 0)))"

definition ToNarrowWidePattern :: "PatternView \<Rightarrow> int" where
  "ToNarrowWidePattern view =
     (let threshold = NarrowWideThreshold view in
      if \<not> isValid threshold then - 1
      else case narrow_wide_loop threshold view 0 0 of
             None \<Rightarrow> - 1
           | Some pattern \<Rightarrow> pattern)"

text \<open>
  The bars of a window are its elements at even positions, the spaces those at odd
  positions (a window starts on a bar).
\<close>

fun bars :: "PatternView \<Rightarrow> 16 word list" where
  "bars [] = []"
| "bars [b] = [b]"
| "bars (b # s # ws) = b # bars ws"

fun spaces :: "PatternView \<Rightarrow> 16 word list" where
  "spaces [] = []"
| "spaces [b] = []"
| "spaces (b # s # ws) = s # spaces ws"

section \<open>Properties\<close>

subsection \<open>Run extraction and pattern search\<close>

lemma segment_Cons: "p < q \<Longrightarrow> q \<le> length row \<Longrightarrow> segment row p q = row ! p # segment row (Suc p) q"
  unfolding segment_def
  by (metis Cons_nth_drop_Suc Suc_diff_Suc less_le_trans take_Suc_Cons)

lemma segment_empty: "segment row p p = []"
  by (simp add: segment_def)

lemma length_segment: "q \<le> length row \<Longrightarrow> length (segment row p q) = q - p"
  by (simp add: segment_def)

lemma segment_drop: "segment row (p + k) q = drop k (segment row p q)"
  by (simp add: segment_def drop_take add.commute)

lemma advance_Forward_1: "advance Forward p 1 = Suc p"
  by (simp add: advance_def)

lemma advance_Reverse_1: "advance Reverse p 1 = p - 1"
  by (simp add: advance_def)

lemma getNextSetTo_Forward:
  "p \<le> q \<Longrightarrow> q \<le> length row \<Longrightarrow>
   getNextSetTo Forward row p q v = p + length (takeWhile (\<lambda>y. y \<noteq> v) (segment row p q))"
proof (induction "q - p" arbitrary: p)
  case 0
  then have "p = q" by simp
  then show ?case
    by (subst getNextSetTo.simps) (simp add: before_def segment_empty)
next
  case (Suc n)
  then have lt: "p < q" by simp
  show ?case
  proof (cases "row ! p = v")
    case True
    then show ?thesis using lt Suc.prems
      by (subst getNextSetTo.simps) (simp add: before_def deref_def segment_Cons)
  next
    case False
    have "getNextSetTo Forward row (Suc p) q v
        = Suc p + length (takeWhile (\<lambda>y. y \<noteq> v) (segment row (Suc p) q))"
      using Suc by (intro Suc.hyps(1)) auto
    then show ?thesis using lt Suc.prems False
      by (subst getNextSetTo.simps) (simp add: before_def deref_def advance_Forward_1 segment_Cons)
  qed
qed

lemma runs_pos: "r \<in> set (runs xs) \<Longrightarrow> 0 < r"
  by (induction xs arbitrary: r rule: runs.induct) auto

lemma sum_list_runs: "sum_list (runs xs) = length xs"
proof (induction xs rule: runs.induct)
  case 1
  then show ?case by simp
next
  case (2 x xs)
  have "length (takeWhile (\<lambda>y. y = x) xs) + length (dropWhile (\<lambda>y. y = x) xs) = length xs"
    by (metis length_append takeWhile_dropWhile_id)
  with 2 show ?case by simp
qed

lemma runs_empty_iff: "runs xs = [] \<longleftrightarrow> xs = []"
  by (cases xs) auto

lemma first_run:
  assumes "i < q" "q \<le> length row"
  shows "\<exists>r. 0 < r \<and> i + r \<le> q
           \<and> getNextSetTo Forward row i q (\<not> deref Forward row i) = i + r
           \<and> runs (segment row i q) = r # runs (segment row (i + r) q)"
proof -
  let ?x = "row ! i"
  let ?xs = "segment row (Suc i) q"
  let ?r = "Suc (length (takeWhile (\<lambda>y. y = ?x) ?xs))"
  have seg: "segment row i q = ?x # ?xs" using assms by (rule segment_Cons)
  have eq: "(\<lambda>y. y \<noteq> (\<not> ?x)) = (\<lambda>y. y = ?x)" by auto
  have g: "getNextSetTo Forward row i q (\<not> deref Forward row i) = i + ?r"
    using assms by (simp add: getNextSetTo_Forward deref_def eq seg)
  have "length (takeWhile (\<lambda>y. y = ?x) ?xs) \<le> length ?xs" by (rule length_takeWhile_le)
  then have le: "i + ?r \<le> q" using assms by (simp add: length_segment)
  have "segment row (i + ?r) q = drop ?r (segment row i q)" by (rule segment_drop)
  also have "\<dots> = dropWhile (\<lambda>y. y = ?x) ?xs" by (simp add: seg dropWhile_eq_drop)
  finally have "runs (segment row i q) = ?r # runs (segment row (i + ?r) q)"
    by (simp add: seg)
  with g le show ?thesis by blast
qed

lemma record_loop:
  assumes "i < q" "q \<le> length row" "k < length cs"
  shows "FindPattern_loop Forward row (\<lambda>b e c. True) q b i i k cs =
     Some (if length cs - k < length (runs (segment row i q))
           then ((b, i + sum_list (take (length cs - k) (runs (segment row i q)))),
                 take k cs @ map int (take (length cs - k) (runs (segment row i q))))
           else ((q, q), take k cs @ map int (runs (segment row i q))
                           @ drop (k + length (runs (segment row i q))) cs))"
  using assms
proof (induction "length cs - k" arbitrary: i k cs)
  case 0
  then show ?case by simp
next
  case (Suc n)
  from first_run[OF Suc.prems(1,2)] obtain r where r: "0 < r" "i + r \<le> q"
    "getNextSetTo Forward row i q (\<not> deref Forward row i) = i + r"
    "runs (segment row i q) = r # runs (segment row (i + r) q)" by blast
  let ?rs' = "runs (segment row (i + r) q)"
  have d: "distance Forward i (i + r) = int r" by (simp add: distance_def)
  have upd: "cs[k := int r] = take k cs @ int r # drop (Suc k) cs"
    using Suc.prems(3) by (rule upd_conv_take_nth_drop)
  show ?case
  proof (cases "i + r = q")
    case True
    then have "?rs' = []" by (simp add: segment_empty)
    then show ?thesis using Suc.prems r True d upd
      by (subst FindPattern_loop.simps) (simp add: before_def Let_def)
  next
    case False
    with r have lt: "i + r < q" by simp
    then have ne: "?rs' \<noteq> []" using Suc.prems(2) by (simp add: runs_empty_iff segment_def)
    show ?thesis
    proof (cases "Suc k = length cs")
      case True
      then have "drop (Suc k) cs = []" by simp
      moreover from True have "length cs - k = Suc 0" by arith
      moreover from ne have "0 < length ?rs'" by simp
      ultimately show ?thesis using True Suc.prems r False d upd
        by (subst FindPattern_loop.simps) (simp add: before_def Let_def)
    next
      case False
      let ?cs1 = "cs[k := int r]"
      have a: "n = length ?cs1 - Suc k" using Suc.hyps(2) by simp
      have b: "Suc k < length ?cs1" using False Suc.prems(3) by simp
      note IH = Suc.hyps(1)[OF a lt Suc.prems(2) b]
      have t: "take (Suc k) ?cs1 = take k cs @ [int r]"
        using Suc.prems(3) by (simp add: upd)
      have dd: "drop (Suc k + length ?rs') ?cs1 = drop (k + length (r # ?rs')) cs" by simp
      have "length cs - k = Suc (length cs - Suc k)" using Suc.prems(3) by arith
      then have tk: "take (length cs - k) (r # ?rs') = r # take (length cs - Suc k) ?rs'"
        by simp
      have step: "FindPattern_loop Forward row (\<lambda>b e c. True) q b i i k cs
          = FindPattern_loop Forward row (\<lambda>b e c. True) q b (i + r) (i + r) (Suc k) ?cs1"
        using Suc.prems r False \<open>i + r \<noteq> q\<close> d
        by (subst FindPattern_loop.simps) (simp add: before_def Let_def)
      show ?thesis
        unfolding step IH r(4) using Suc.prems(3) False
        by (auto simp: t dd tk add.assoc)
    qed
  qed
qed

lemma last_zeroed: "cs \<noteq> [] \<Longrightarrow> last (cs[length cs - 1 := (0::int)]) = 0"
  by (simp add: last_conv_nth)

lemma RecordPattern_Forward:
  assumes "b \<le> q" "q \<le> length row" "cs \<noteq> []"
  shows "RecordPattern Forward row b q cs =
     Some (if length cs \<le> length (runs (segment row b q))
           then ((b, b + sum_list (take (length cs) (runs (segment row b q)))),
                 map int (take (length cs) (runs (segment row b q))))
           else ((q, q), map int (runs (segment row b q))
                           @ drop (length (runs (segment row b q))) (cs[length cs - 1 := 0])))"
proof (cases "b = q")
  case True
  then show ?thesis using assms(3)
    by (simp add: RecordPattern_def FindPattern_def segment_empty last_zeroed Let_def)
next
  case False
  with assms have lt: "b < q" by simp
  let ?cs0 = "cs[length cs - 1 := 0]"
  let ?rs = "runs (segment row b q)"
  have len: "0 < length ?cs0" using assms(3) by simp
  have sum: "sum_list ?rs = q - b" using assms by (simp add: sum_list_runs length_segment)
  have ne: "?rs \<noteq> []" using lt assms(2) by (simp add: runs_empty_iff segment_def)
  have F: "FindPattern Forward row b q ?cs0 (\<lambda>b e c. True) =
     Some (if length cs < length ?rs
           then ((b, b + sum_list (take (length cs) ?rs)), map int (take (length cs) ?rs))
           else ((q, q), map int ?rs @ drop (length ?rs) ?cs0))"
    using False record_loop[OF lt assms(2) len, of b] by (simp add: FindPattern_def)
  consider (more) "length cs < length ?rs" | (same) "length cs = length ?rs"
    | (fewer) "length ?rs < length cs" by arith
  then show ?thesis
  proof cases
    case more
    then show ?thesis using assms(3) F
      by (auto simp: RecordPattern_def Let_def)
  next
    case same
    have "last ?rs \<in> set ?rs" using ne by simp
    then have "0 < last ?rs" by (rule runs_pos)
    then have "last (map int ?rs) \<noteq> 0" using ne by (simp add: last_map)
    then show ?thesis using assms(1,3) F same sum
      by (simp add: RecordPattern_def Let_def)
  next
    case fewer
    then have "drop (length ?rs) ?cs0 \<noteq> []" by simp
    then have "last (map int ?rs @ drop (length ?rs) ?cs0) = last ?cs0"
      using fewer by (simp add: last_drop)
    also have "\<dots> = 0" using assms(3) by (rule last_zeroed)
    finally show ?thesis using assms(3) F fewer
      by (simp add: RecordPattern_def Let_def)
  qed
qed

lemma getNextSetTo_Forward_le:
  "p \<le> q \<Longrightarrow> q \<le> length row \<Longrightarrow> getNextSetTo Forward row p q v \<le> q"
proof -
  assume a: "p \<le> q" "q \<le> length row"
  have "length (takeWhile (\<lambda>y. y \<noteq> v) (segment row p q)) \<le> length (segment row p q)"
    by (rule length_takeWhile_le)
  with a show ?thesis by (simp add: getNextSetTo_Forward length_segment)
qed

lemma getNextSetTo_Forward_ge:
  "p \<le> q \<Longrightarrow> q \<le> length row \<Longrightarrow> p \<le> getNextSetTo Forward row p q v"
  by (simp add: getNextSetTo_Forward)

lemma getNextSetTo_Reverse:
  "q \<le> p \<Longrightarrow> p \<le> length row \<Longrightarrow>
   getNextSetTo Reverse row p q v
     = length row - getNextSetTo Forward (rev row) (length row - p) (length row - q) v"
proof (induction "p - q" arbitrary: p)
  case 0
  then have "p = q" by simp
  then show ?case using "0.prems"
    by (subst getNextSetTo.simps, subst (2) getNextSetTo.simps) (simp add: before_def)
next
  case (Suc m)
  let ?n = "length row"
  from Suc have lt: "q < p" by simp
  have dr: "deref Reverse row p = deref Forward (rev row) (?n - p)"
    using lt Suc.prems by (simp add: deref_def rev_nth) 
  have bf: "before Forward (?n - p) (?n - q)" using lt Suc.prems by (simp add: before_def)
  have br: "before Reverse p q" using lt by (simp add: before_def)
  show ?case
  proof (cases "deref Reverse row p = v")
    case True
    then show ?thesis using dr Suc.prems
      by (subst getNextSetTo.simps, subst (2) getNextSetTo.simps) simp
  next
    case False
    have m: "m = (p - 1) - q" using Suc.hyps(2) by simp
    have IH: "getNextSetTo Reverse row (p - 1) q v
        = ?n - getNextSetTo Forward (rev row) (?n - (p - 1)) (?n - q) v"
      using Suc.prems lt by (intro Suc.hyps(1)[OF m]) auto
    have s: "Suc (?n - p) = ?n - (p - 1)" using lt Suc.prems by simp
    have L: "getNextSetTo Reverse row p q v = getNextSetTo Reverse row (p - 1) q v"
      using False br by (subst getNextSetTo.simps) (simp add: advance_Reverse_1)
    have R: "getNextSetTo Forward (rev row) (?n - p) (?n - q) v
        = getNextSetTo Forward (rev row) (?n - (p - 1)) (?n - q) v"
      using False bf dr by (subst getNextSetTo.simps) (simp add: advance_Forward_1 s)
    show ?thesis unfolding L R IH ..
  qed
qed

lemma distance_mirror:
  "li \<le> n \<Longrightarrow> a \<le> n \<Longrightarrow> distance Reverse li (n - a) = distance Forward (n - li) a"
  by (simp add: distance_def of_nat_diff)

lemma reverse_loop:
  assumes "q \<le> i" "i \<le> length row" "li \<le> length row" "b \<le> length row"
  shows "FindPattern_loop Reverse row (\<lambda>b e c. True) q b li i k cs
     = map_option (mirror (length row))
         (FindPattern_loop Forward (rev row) (\<lambda>b e c. True)
            (length row - q) (length row - b) (length row - li) (length row - i) k cs)"
  using assms
proof (induction "i - q" arbitrary: i li k cs rule: less_induct)
  case less
  let ?n = "length row"
  show ?case
  proof (cases "i = q")
    case True
    then show ?thesis
      by (subst FindPattern_loop.simps, subst (2) FindPattern_loop.simps) (simp add: before_def)
  next
    case False
    with less.prems have lt: "q < i" by simp
    let ?iR = "getNextSetTo Reverse row i q (\<not> deref Forward (rev row) (?n - i))"
    let ?iF = "getNextSetTo Forward (rev row) (?n - i) (?n - q) (\<not> deref Forward (rev row) (?n - i))"
    have dr: "deref Reverse row i = deref Forward (rev row) (?n - i)"
      using lt less.prems by (simp add: deref_def rev_nth)
    have iR: "?iR = ?n - ?iF"
      using less.prems dr by (simp add: getNextSetTo_Reverse)
    have le: "?iF \<le> ?n - q" using less.prems lt
      by (intro getNextSetTo_Forward_le) auto
    have ge: "?n - i \<le> ?iF" using less.prems lt
      by (intro getNextSetTo_Forward_ge) auto
    have bf: "before Forward (?n - i) (?n - q)" using lt less.prems by (simp add: before_def)
    have br: "before Reverse i q" using lt by (simp add: before_def)
    have qn: "q \<le> ?n" using less.prems by simp
    have qle: "q \<le> ?iR" using iR le qn by arith
    have "?n - i < ?n - q" "?n - q \<le> length (rev row)" using lt less.prems by auto
    from first_run[OF this] obtain r where "0 < r" "?iF = ?n - i + r"
      by (auto simp: deref_def)
    then have "?iR = ?n - (?n - i + r)" "0 < r" using iR by simp_all
    then have "?iR < i" using lt less.prems(2) by arith
    then have dec: "?iR - q < i - q" using qle by arith
    have ile: "?iR \<le> ?n" using iR by arith
    have bk: "?n - ?iR = ?iF" using iR le qn by arith
    have "?iF \<le> ?n" using le by arith
    then have dist: "distance Reverse li ?iR = distance Forward (?n - li) ?iF"
      unfolding iR using less.prems(3) by (intro distance_mirror)
    have endeq: "?iR = q \<longleftrightarrow> ?iF = ?n - q" using iR le qn by arith
    note IH = less.hyps[OF dec qle ile ile less.prems(4), unfolded bk]
    show ?thesis
      apply (subst FindPattern_loop.simps[of Reverse row _ q b li i k cs])
      apply (subst FindPattern_loop.simps[of Forward "rev row" _ "?n - q" "?n - b" "?n - li" "?n - i" k cs])
      using br bf dist endeq IH less.prems(4) qn bk
      apply (simp add: Let_def mirror_def dr)
      apply (simp add: iR)
      done
  qed
qed

lemma sum_list_take_le: "sum_list (take k (xs :: nat list)) \<le> sum_list xs"
proof -
  have "sum_list xs = sum_list (take k xs) + sum_list (drop k xs)"
    by (metis append_take_drop_id sum_list_append)
  then show ?thesis by simp
qed

lemma FindPattern_Forward_True:
  assumes "b \<le> q" "q \<le> length row" "cs \<noteq> []"
  shows "FindPattern Forward row b q cs (\<lambda>b e c. True) =
     Some (if length cs < length (runs (segment row b q))
           then ((b, b + sum_list (take (length cs) (runs (segment row b q)))),
                 map int (take (length cs) (runs (segment row b q))))
           else ((q, q), map int (runs (segment row b q))
                           @ drop (length (runs (segment row b q))) cs))"
proof (cases "b = q")
  case True
  then show ?thesis by (simp add: FindPattern_def segment_empty)
next
  case False
  with assms have lt: "b < q" by simp
  have len: "0 < length cs" using assms(3) by simp
  show ?thesis using False record_loop[OF lt assms(2) len, of b] by (simp add: FindPattern_def)
qed

lemma FindPattern_Forward_True_bound:
  assumes "b \<le> q" "q \<le> length row" "cs \<noteq> []"
    and "FindPattern Forward row b q cs (\<lambda>b e c. True) = Some (found, cs')"
  shows "snd found \<le> q"
proof -
  let ?rs = "runs (segment row b q)"
  have "sum_list (take (length cs) ?rs) \<le> sum_list ?rs" by (rule sum_list_take_le)
  also have "\<dots> = q - b" using assms by (simp add: sum_list_runs length_segment)
  finally have "b + sum_list (take (length cs) ?rs) \<le> q" using assms(1) by simp
  with assms(4) show ?thesis
    unfolding FindPattern_Forward_True[OF assms(1-3)] by (auto split: if_splits)
qed

lemma RecordPattern_Reverse:
  assumes "q \<le> b" "b \<le> length row"
  shows "RecordPattern Reverse row b q cs
     = map_option (mirror (length row))
         (RecordPattern Forward (rev row) (length row - b) (length row - q) cs)"
proof (cases "cs = []")
  case True
  then show ?thesis by (simp add: RecordPattern_def)
next
  case False
  let ?n = "length row"
  let ?cs0 = "cs[length cs - 1 := 0]"
  let ?T = "\<lambda>(b::nat) (e::nat) (c::int list). True"
  have ne: "?cs0 \<noteq> []" using False by simp
  have F: "FindPattern Reverse row b q ?cs0 ?T
      = map_option (mirror ?n) (FindPattern Forward (rev row) (?n - b) (?n - q) ?cs0 ?T)"
  proof (cases "b = q")
    case True
    then show ?thesis using assms by (simp add: FindPattern_def mirror_def)
  next
    case False
    then have "?n - b \<noteq> ?n - q" using assms by arith
    with False show ?thesis
      using reverse_loop[OF assms(1,2) assms(2) assms(2), of 0 ?cs0]
      by (simp add: FindPattern_def)
  qed
  have le: "?n - b \<le> ?n - q" "?n - q \<le> length (rev row)" using assms by auto
  obtain found cs' where S: "FindPattern Forward (rev row) (?n - b) (?n - q) ?cs0 ?T = Some (found, cs')"
    using FindPattern_Forward_True[OF le ne] by (cases "length ?cs0 < length (runs (segment (rev row) (?n - b) (?n - q)))") auto
  have bound: "snd found \<le> ?n - q" using FindPattern_Forward_True_bound[OF le ne S] .
  have "(?n - snd found = q) = (snd found = ?n - q)" using bound assms by arith
  then show ?thesis using False assms
    unfolding RecordPattern_def Let_def F S by (simp add: mirror_def)
qed

lemma segment_rev:
  assumes "q \<le> b" "b \<le> length row"
  shows "segment (rev row) (length row - b) (length row - q) = rev (segment row q b)"
proof -
  have "segment (rev row) (length row - b) (length row - q)
      = take (b - q) (drop (length row - b) (rev row))"
    using assms by (simp add: segment_def)
  also have "drop (length row - b) (rev row) = rev (take b row)" by (simp add: rev_take)
  also have "take (b - q) (rev (take b row)) = rev (drop q (take b row))"
    using assms by (simp add: take_rev)
  also have "drop q (take b row) = segment row q b" by (simp add: segment_def drop_take)
  finally show ?thesis .
qed

lemma advance_Forward_nat: "advance Forward p (int k) = p + k"
  by (simp add: advance_def nat_int_add)

lemma advance_Reverse_nat: "advance Reverse p (int k) = p - k"
  by (simp add: advance_def)

lemma advance_Forward_nat2: "advance Forward p (int a + int b) = p + a + b"
  unfolding of_nat_add[symmetric] advance_Forward_nat by simp

lemma advance_Reverse_nat2: "advance Reverse p (int a + int b) = p - (a + b)"
  unfolding of_nat_add[symmetric] advance_Reverse_nat by simp

lemma RecordPattern_runs:
  assumes "valid_range d row b q" "cs \<noteq> []"
  shows "RecordPattern d row b q cs =
     Some (if length cs \<le> length (runs (traversed d row b q))
           then ((b, advance d b (int (sum_list (take (length cs) (runs (traversed d row b q)))))),
                 map int (take (length cs) (runs (traversed d row b q))))
           else ((q, q), map int (runs (traversed d row b q))
                   @ drop (length (runs (traversed d row b q))) (cs[length cs - 1 := 0])))"
proof (cases d)
  case Forward
  with assms show ?thesis
    by (simp add: RecordPattern_Forward valid_range_def traversed_def advance_Forward_nat)
next
  case Reverse
  let ?n = "length row"
  from assms Reverse have v: "q \<le> b" "b \<le> ?n" by (simp_all add: valid_range_def)
  then have le: "?n - b \<le> ?n - q" "?n - q \<le> length (rev row)" by auto
  let ?rs = "runs (rev (segment row q b))"
  have "sum_list (take (length cs) ?rs) \<le> sum_list ?rs" by (rule sum_list_take_le)
  also have "\<dots> = b - q" using v by (simp add: sum_list_runs length_segment)
  finally have s: "sum_list (take (length cs) ?rs) \<le> b - q" .
  have a: "?n - (?n - b + sum_list (take (length cs) ?rs))
      = advance Reverse b (int (sum_list (take (length cs) ?rs)))"
    using s v by (simp add: advance_Reverse_nat)
  have b: "?n - (?n - b) = b" "?n - (?n - q) = q" using v by auto
  show ?thesis
    unfolding Reverse RecordPattern_Reverse[OF v] RecordPattern_Forward[OF le assms(2)]
      segment_rev[OF v] traversed_def
    by (simp add: mirror_def a b)
qed

lemma runs_sample: "runs sample_row = [2, 3, 1, 1]"
  by (simp add: sample_row_def)

lemma sum_list_map_int: "sum_list (map int xs) = int (sum_list xs)"
  by (induction xs) simp_all

text \<open>
  C2. For every row, every valid iterator range and every non-empty \<open>counters\<close>,
  \<open>RecordPattern\<close> returns, and it either returns the NotFound sentinel, the empty
  range \<open>(end, end)\<close>, or a range that starts at \<open>begin\<close>, ends after \<open>begin\<close> and not
  after \<open>end\<close>, and whose length is exactly the sum of the recorded counters. This
  holds for both iterator types.
\<close>

theorem RecordPattern_counters_sum:
  assumes "valid_range d row begin' end'" and "counters \<noteq> []"
  shows "\<exists>found cs. RecordPattern d row begin' end' counters = Some (found, cs)
           \<and> length cs = length counters
           \<and> (found = (end', end')
               \<or> (fst found = begin' \<and> before d begin' (snd found) \<and> \<not> before d end' (snd found)
                   \<and> sum_list cs = distance d (fst found) (snd found)))"
proof -
  let ?rs = "runs (traversed d row begin' end')"
  let ?N = "length counters"
  have len: "length (traversed d row begin' end') = remaining d begin' end'"
    using assms(1) by (cases d) (simp_all add: traversed_def valid_range_def remaining_def length_segment)
  show ?thesis
  proof (cases "?N \<le> length ?rs")
    case True
    let ?s = "sum_list (take ?N ?rs)"
    have "take ?N ?rs \<noteq> []" using True assms(2) by auto
    then obtain r rest where tr: "take ?N ?rs = r # rest" by (cases "take ?N ?rs") auto
    then have "r \<in> set ?rs" by (metis in_set_takeD list.set_intros(1))
    then have "0 < r" by (rule runs_pos)
    then have pos: "0 < ?s" by (simp add: tr)
    have "?s \<le> sum_list ?rs" by (rule sum_list_take_le)
    then have le: "?s \<le> remaining d begin' end'" by (simp add: sum_list_runs len)
    have "sum_list (map int (take ?N ?rs)) = int ?s" by (rule sum_list_map_int)
    then have "sum_list (map int (take ?N ?rs)) = distance d begin' (advance d begin' (int ?s))"
      using le assms(1)
      by (cases d) (simp_all add: distance_def advance_Forward_nat advance_Reverse_nat
          remaining_def valid_range_def)
    moreover have "before d begin' (advance d begin' (int ?s))"
      using pos le assms(1)
      by (cases d) (simp_all add: before_def advance_Forward_nat advance_Reverse_nat
          remaining_def valid_range_def)
    moreover have "\<not> before d end' (advance d begin' (int ?s))"
      using pos le assms(1)
      by (cases d) (simp_all add: before_def advance_Forward_nat advance_Reverse_nat
          remaining_def valid_range_def)
    ultimately show ?thesis using True by (simp add: RecordPattern_runs[OF assms])
  next
    case False
    then show ?thesis using assms(2) by (simp add: RecordPattern_runs[OF assms])
  qed
qed

theorem RecordPattern_counters_sum_witness:
  "valid_range Forward sample_row 0 7 \<and> [9, 9, 9] \<noteq> ([] :: int list)
   \<and> RecordPattern Forward sample_row 0 7 [9, 9, 9] = Some ((0, 6), [2, 3, 1])
   \<and> sum_list [2, 3, 1] = distance Forward 0 6"
proof -
  have v: "valid_range Forward sample_row 0 7" by (simp add: valid_range_def sample_row_def)
  have ne: "[9, 9, 9] \<noteq> ([] :: int list)" by simp
  have ev: "RecordPattern Forward sample_row 0 7 [9, 9, 9] = Some ((0, 6), [2, 3, 1])"
    by code_simp
  from RecordPattern_counters_sum[OF v ne] ev
  have "sum_list [2, 3, 1] = distance Forward 0 6" by simp
  with v ne ev show ?thesis by blast
qed

text \<open>
  C3. \<open>RecordPattern\<close> signals "not found" exactly when the traversed pixels have fewer
  than \<open>N\<close> runs, \<open>N\<close> the number of counters: a range with more than \<open>N\<close> runs
  completes \<open>N\<close> of them before its end, and when it has exactly \<open>N\<close> runs the scan
  reaches \<open>end\<close> while it records the last one; that result is accepted, the returned
  range is \<open>[begin, end)\<close> and the counters are the run widths.
\<close>

theorem RecordPattern_not_found_iff:
  assumes "valid_range d row begin' end'" and "counters \<noteq> []"
  shows "\<exists>found cs. RecordPattern d row begin' end' counters = Some (found, cs)
           \<and> (found = (end', end')
                \<longleftrightarrow> length (runs (traversed d row begin' end')) < length counters)
           \<and> (length (runs (traversed d row begin' end')) = length counters
                \<longrightarrow> found = (begin', end') \<and> cs = map int (runs (traversed d row begin' end')))"
proof -
  let ?rs = "runs (traversed d row begin' end')"
  let ?N = "length counters"
  have len: "length (traversed d row begin' end') = remaining d begin' end'"
    using assms(1) by (cases d) (simp_all add: traversed_def valid_range_def remaining_def length_segment)
  show ?thesis
  proof (cases "?N \<le> length ?rs")
    case True
    then have "?rs \<noteq> []" using assms(2) by auto
    then have "traversed d row begin' end' \<noteq> []" by (simp add: runs_empty_iff)
    then have ne: "begin' \<noteq> end'" using len by (cases d) (auto simp: remaining_def)
    have full: "advance d begin' (int (sum_list ?rs)) = end'"
      using assms(1) len by (cases d) (simp_all add: sum_list_runs advance_def
          remaining_def valid_range_def)
    show ?thesis using True ne full by (auto simp: RecordPattern_runs[OF assms])
  next
    case False
    then show ?thesis by (simp add: RecordPattern_runs[OF assms])
  qed
qed

theorem RecordPattern_not_found_iff_witness:
  "valid_range Forward sample_row 0 7 \<and> [9, 9, 9, 9] \<noteq> ([] :: int list)
   \<and> length (runs (traversed Forward sample_row 0 7)) = length [9, 9, 9, 9 :: int]
   \<and> RecordPattern Forward sample_row 0 7 [9, 9, 9, 9] = Some ((0, 7), [2, 3, 1, 1])
   \<and> RecordPattern Forward sample_row 0 7 [9, 9, 9, 9, 9] = Some ((7, 7), [2, 3, 1, 1, 0])"
proof -
  have v: "valid_range Forward sample_row 0 7" by (simp add: valid_range_def sample_row_def)
  have ne: "[9, 9, 9, 9] \<noteq> ([] :: int list)" "[9, 9, 9, 9, 9] \<noteq> ([] :: int list)" by simp_all
  have t: "traversed Forward sample_row 0 7 = sample_row"
    by (simp add: traversed_def segment_def sample_row_def)
  have r: "runs (traversed Forward sample_row 0 7) = [2, 3, 1, 1]"
    unfolding t by (rule runs_sample)
  have ev: "RecordPattern Forward sample_row 0 7 [9, 9, 9, 9, 9] = Some ((7, 7), [2, 3, 1, 1, 0])"
    by code_simp
  from RecordPattern_not_found_iff[OF v ne(1)] r
  have "RecordPattern Forward sample_row 0 7 [9, 9, 9, 9] = Some ((0, 7), [2, 3, 1, 1])"
    by auto
  moreover from RecordPattern_not_found_iff[OF v ne(2)] r ev
  have "length (runs (traversed Forward sample_row 0 7)) < length [9, 9, 9, 9, 9 :: int]"
    by simp
  ultimately show ?thesis using v ne r ev by simp
qed

text \<open>
  C9. For a non-empty range, \<open>RecordPattern\<close> returns the NotFound range exactly when
  the last counter slot is 0 at return. On failure the counters are not left as they
  were: the leading slots hold the widths of the runs that were seen (at least one, and
  fewer than \<open>N\<close>), so the first slot is positive.
\<close>

theorem RecordPattern_last_slot:
  assumes "valid_range d row begin' end'" and "begin' \<noteq> end'" and "counters \<noteq> []"
  shows "\<exists>found cs. RecordPattern d row begin' end' counters = Some (found, cs)
           \<and> (found = (end', end') \<longleftrightarrow> last cs = 0)
           \<and> (found = (end', end') \<longrightarrow>
                 runs (traversed d row begin' end') \<noteq> []
                 \<and> length (runs (traversed d row begin' end')) < length counters
                 \<and> take (length (runs (traversed d row begin' end'))) cs
                     = map int (runs (traversed d row begin' end'))
                 \<and> 0 < cs ! 0)"
proof -
  let ?rs = "runs (traversed d row begin' end')"
  let ?N = "length counters"
  let ?cs0 = "counters[?N - 1 := 0]"
  have len: "length (traversed d row begin' end') = remaining d begin' end'"
    using assms(1) by (cases d) (simp_all add: traversed_def valid_range_def remaining_def length_segment)
  then have "traversed d row begin' end' \<noteq> []"
    using assms(1,2) by (cases d) (auto simp: remaining_def valid_range_def)
  then have ne: "?rs \<noteq> []" by (simp add: runs_empty_iff)
  then have "hd ?rs \<in> set ?rs" by simp
  then have hd: "0 < hd ?rs" by (rule runs_pos)
  show ?thesis
  proof (cases "?N \<le> length ?rs")
    case True
    then have tne: "take ?N ?rs \<noteq> []" using assms(3) ne by auto
    then have "last (take ?N ?rs) \<in> set ?rs" by (meson in_set_takeD last_in_set)
    then have "0 < last (take ?N ?rs)" by (rule runs_pos)
    then have "last (map int (take ?N ?rs)) \<noteq> 0" using tne by (simp add: last_map)
    then show ?thesis using True assms(2) by (simp add: RecordPattern_runs[OF assms(1,3)])
  next
    case False
    then have "drop (length ?rs) ?cs0 \<noteq> []" by simp
    then have "last (map int ?rs @ drop (length ?rs) ?cs0) = last ?cs0"
      using False by (simp add: last_drop)
    also have "\<dots> = 0" using assms(3) by (rule last_zeroed)
    finally have l: "last (map int ?rs @ drop (length ?rs) ?cs0) = 0" .
    have "(map int ?rs @ drop (length ?rs) ?cs0) ! 0 = int (hd ?rs)"
      using ne by (simp add: nth_append hd_conv_nth)
    then show ?thesis using False l ne hd by (simp add: RecordPattern_runs[OF assms(1,3)])
  qed
qed

theorem RecordPattern_last_slot_witness:
  "valid_range Forward sample_row 0 7 \<and> (0::nat) \<noteq> 7 \<and> [9, 9, 9, 9, 9] \<noteq> ([] :: int list)
   \<and> RecordPattern Forward sample_row 0 7 [9, 9, 9, 9, 9] = Some ((7, 7), [2, 3, 1, 1, 0])
   \<and> last [2, 3, 1, 1, 0 :: int] = 0
   \<and> [2, 3, 1, 1, 0] \<noteq> [9, 9, 9, 9, 9 :: int]
   \<and> length (runs (traversed Forward sample_row 0 7)) < length [9, 9, 9, 9, 9 :: int]"
proof -
  have v: "valid_range Forward sample_row 0 7" by (simp add: valid_range_def sample_row_def)
  have ne: "[9, 9, 9, 9, 9] \<noteq> ([] :: int list)" by simp
  have d: "(0::nat) \<noteq> 7" by simp
  have ev: "RecordPattern Forward sample_row 0 7 [9, 9, 9, 9, 9] = Some ((7, 7), [2, 3, 1, 1, 0])"
    by code_simp
  from RecordPattern_last_slot[OF v d ne] ev
  have "length (runs (traversed Forward sample_row 0 7)) < length [9, 9, 9, 9, 9 :: int]"
    by simp
  with v ne ev show ?thesis by simp
qed

lemma runs_drop:
  "k \<le> length (runs xs) \<Longrightarrow> runs (drop (sum_list (take k (runs xs))) xs) = drop k (runs xs)"
proof (induction k arbitrary: xs)
  case 0
  then show ?case by simp
next
  case (Suc k)
  then obtain x xs' where xs: "xs = x # xs'" by (cases xs) auto
  let ?r = "Suc (length (takeWhile (\<lambda>y. y = x) xs'))"
  let ?rest = "dropWhile (\<lambda>y. y = x) xs'"
  have r: "runs xs = ?r # runs ?rest" by (simp add: xs)
  have d: "drop ?r xs = ?rest" by (simp add: xs dropWhile_eq_drop)
  have k: "k \<le> length (runs ?rest)" using Suc.prems r by simp
  have "drop (sum_list (take (Suc k) (runs xs))) xs
      = drop (sum_list (take k (runs ?rest))) (drop ?r xs)"
    unfolding r by (simp add: add.commute)
  then show ?case unfolding d r using Suc.IH[OF k] by simp
qed

lemma segment_nil_iff: "q \<le> length row \<Longrightarrow> segment row p q = [] \<longleftrightarrow> q \<le> p"
  by (auto simp: segment_def)

lemma scan_loop:
  assumes "B \<le> i" "i < q" "q \<le> length row" "k < length cs" "2 \<le> length cs"
    and "i = B + sum_list (take k (runs (segment row B q)))"
    and "k \<le> length (runs (segment row B q))"
    and "take k cs = map int (take k (runs (segment row B q)))"
  shows "(\<forall>x y w. scan_windows Forward match B (runs (segment row B q)) (length cs) = Some (x, y, w)
            \<longrightarrow> FindPattern_loop Forward row match q B i i k cs = Some ((x, y), map int w))
       \<and> (scan_windows Forward match B (runs (segment row B q)) (length cs) = None
            \<longrightarrow> (\<exists>cs'. FindPattern_loop Forward row match q B i i k cs = Some ((q, q), cs')))"
  using assms
proof (induction "q - i" arbitrary: B i k cs rule: less_induct)
  case less
  let ?rs = "runs (segment row B q)"
  let ?N = "length cs"
  note iq = less.prems(2) and ql = less.prems(3) and kN = less.prems(4) and N2 = less.prems(5)
    and ieq = less.prems(6) and kle = less.prems(7) and tk = less.prems(8)
  have "segment row i q = drop (sum_list (take k ?rs)) (segment row B q)"
    using segment_drop[of row B "sum_list (take k ?rs)" q] ieq by simp
  then have ri: "runs (segment row i q) = drop k ?rs" using runs_drop[OF kle] by simp
  from first_run[OF iq ql] obtain r where r: "0 < r" "i + r \<le> q"
    "getNextSetTo Forward row i q (\<not> deref Forward row i) = i + r"
    "runs (segment row i q) = r # runs (segment row (i + r) q)" by blast
  have dk: "drop k ?rs = r # runs (segment row (i + r) q)" using ri r(4) by simp
  then have klt: "k < length ?rs" by (cases "k < length ?rs") auto
  have nth: "?rs ! k = r" and dS: "drop (Suc k) ?rs = runs (segment row (i + r) q)"
    using dk Cons_nth_drop_Suc[OF klt] by simp_all
  have tS: "take (Suc k) ?rs = take k ?rs @ [r]" using klt nth by (simp add: take_Suc_conv_app_nth)
  have i': "i + r = B + sum_list (take (Suc k) ?rs)" using ieq by (simp add: tS)
  have fin: "i + r = q \<longleftrightarrow> length ?rs = Suc k"
  proof -
    have "i + r = q \<longleftrightarrow> segment row (i + r) q = []"
      using r(2) ql by (auto simp: segment_nil_iff)
    also have "\<dots> \<longleftrightarrow> drop (Suc k) ?rs = []" by (simp add: dS runs_empty_iff)
    also have "\<dots> \<longleftrightarrow> length ?rs = Suc k" using klt by auto
    finally show ?thesis .
  qed
  let ?cs1 = "cs[k := int r]"
  have t1: "take (Suc k) ?cs1 = map int (take (Suc k) ?rs)"
    using kN tk by (simp add: tS take_Suc_conv_app_nth)
  have d: "distance Forward i (i + r) = int r" by (simp add: distance_def)
  have b: "before Forward i q" using iq by (simp add: before_def)
  show ?case
  proof (cases "i + r = q")
    case True
    then have "length ?rs \<le> ?N" using fin kN by simp
    then have "scan_windows Forward match B ?rs ?N = None" by (subst scan_windows.simps) simp
    moreover have "FindPattern_loop Forward row match q B i i k cs = Some ((q, q), ?cs1)"
      using True b r(3) d kN by (subst FindPattern_loop.simps) (simp add: Let_def)
    ultimately show ?thesis by simp
  next
    case False
    then have more: "Suc k < length ?rs" using fin klt by arith
    have lt': "i + r < q" using False r(2) by simp
    have dec: "q - (i + r) < q - i" using r(1) iq by arith
    show ?thesis
    proof (cases "Suc k = ?N")
      case True
      then have full: "?cs1 = map int (take ?N ?rs)" using t1 by simp
      have Nlt: "?N < length ?rs" using more True by simp
      have i'N: "i + r = B + sum_list (take ?N ?rs)" using i' True by simp
      show ?thesis
      proof (cases "match B (i + r) ?cs1")
        case m: True
        have "scan_windows Forward match B ?rs ?N = Some (B, i + r, take ?N ?rs)"
          using m N2 Nlt full i'N by (subst scan_windows.simps) (simp add: advance_Forward_nat)
        moreover have "FindPattern_loop Forward row match q B i i k cs = Some ((B, i + r), ?cs1)"
          using m True False b r(3) d kN by (subst FindPattern_loop.simps) (simp add: Let_def)
        ultimately show ?thesis using full by simp
      next
        case m: False
        let ?B' = "B + ?rs ! 0 + ?rs ! 1"
        let ?cs2 = "drop 2 ?cs1 @ drop (?N - 2) ?cs1"
        have "0 < ?N" "1 < ?N" using N2 by arith+
        then have c01: "?cs1 ! 0 = int (?rs ! 0)" "?cs1 ! 1 = int (?rs ! 1)"
          using Nlt unfolding full by simp_all
        have adv: "advance Forward B (?cs1 ! 0 + ?cs1 ! 1) = ?B'"
          unfolding c01 of_nat_add[symmetric] advance_Forward_nat by simp
        have S: "scan_windows Forward match B ?rs ?N = scan_windows Forward match ?B' (drop 2 ?rs) ?N"
          using m N2 Nlt full i'N
          by (subst scan_windows.simps) (simp add: advance_Forward_nat advance_Forward_nat2)
        have L: "FindPattern_loop Forward row match q B i i k cs
            = FindPattern_loop Forward row match q ?B' (i + r) (i + r) (?N - 2) ?cs2"
          using m True False b r(3) d kN N2 adv
          by (subst FindPattern_loop.simps) (simp add: Let_def)
        have "2 < length ?rs" using N2 Nlt by arith
        then obtain r0 r1 rest where rs01: "?rs = r0 # r1 # rest"
          by (cases ?rs; cases "tl ?rs") auto
        have t2: "take 2 ?rs = [?rs ! 0, ?rs ! 1]"
          unfolding rs01 by simp
        have s2: "sum_list (take 2 ?rs) = ?rs ! 0 + ?rs ! 1" by (simp add: t2)
        have split: "take ?N ?rs = take 2 ?rs @ take (?N - 2) (drop 2 ?rs)"
          using N2 by (metis add_diff_inverse_nat not_less take_add)
        have segB': "segment row ?B' q = drop (sum_list (take 2 ?rs)) (segment row B q)"
          using segment_drop[of row B "sum_list (take 2 ?rs)" q] by (simp add: s2 add.assoc)
        have rB': "runs (segment row ?B' q) = drop 2 ?rs"
          unfolding segB' using N2 Nlt by (intro runs_drop) simp
        have p1: "?B' \<le> i + r" unfolding i'N split by (simp add: s2)
        have p6: "i + r = ?B' + sum_list (take (?N - 2) (runs (segment row ?B' q)))"
          unfolding rB' i'N by (subst split) (simp add: s2)
        have p7: "?N - 2 \<le> length (runs (segment row ?B' q))"
          unfolding rB' using Nlt by simp
        define cs2 where "cs2 = ?cs2"
        have len2: "length cs2 = ?N" using N2 by (simp add: cs2_def)
        have "take (?N - 2) cs2 = drop 2 ?cs1" by (simp add: cs2_def)
        also have "\<dots> = map int (drop 2 (take ?N ?rs))" by (simp only: full drop_map)
        also have "drop 2 (take ?N ?rs) = take (?N - 2) (drop 2 ?rs)" by (simp only: drop_take)
        finally have p8: "take (?N - 2) cs2 = map int (take (?N - 2) (runs (segment row ?B' q)))"
          by (simp only: rB')
        have p4: "?N - 2 < length cs2" using N2 len2 by arith
        have p5: "2 \<le> length cs2" using N2 len2 by simp
        note IH = less.hyps[OF dec p1 lt' ql p4 p5 p6 p7 p8, unfolded len2]
        have L': "FindPattern_loop Forward row match q B i i k cs
            = FindPattern_loop Forward row match q ?B' (i + r) (i + r) (?N - 2) cs2"
          using L by (simp only: cs2_def)
        from IH show ?thesis unfolding S L' rB' .
      qed
    next
      case F: False
      have L: "FindPattern_loop Forward row match q B i i k cs
          = FindPattern_loop Forward row match q B (i + r) (i + r) (Suc k) ?cs1"
        using F False b r(3) d kN by (subst FindPattern_loop.simps) (simp add: Let_def)
      have p1: "B \<le> i + r" using less.prems(1) by simp
      have p4: "Suc k < length ?cs1" using F kN by simp
      have p5: "2 \<le> length ?cs1" using N2 by simp
      have p7: "Suc k \<le> length ?rs" using more by simp
      note IH = less.hyps[OF dec p1 lt' ql p4 p5 i' p7 t1]
      from IH L show ?thesis by simp
    qed
  qed
qed

lemma FindPattern_scan_Forward:
  assumes "begin' \<le> end'" "end' \<le> length row" "2 \<le> length counters"
  shows "(\<forall>x y w. scan_windows Forward match begin' (runs (segment row begin' end')) (length counters)
              = Some (x, y, w)
            \<longrightarrow> FindPattern Forward row begin' end' counters match = Some ((x, y), map int w))
       \<and> (scan_windows Forward match begin' (runs (segment row begin' end')) (length counters) = None
            \<longrightarrow> (\<exists>cs'. FindPattern Forward row begin' end' counters match
                        = Some ((end', end'), cs')))"
proof (cases "begin' = end'")
  case True
  then have "scan_windows Forward match begin' (runs (segment row begin' end')) (length counters) = None"
    by (subst scan_windows.simps) (simp add: segment_empty)
  then show ?thesis using True by (simp add: FindPattern_def)
next
  case False
  then have lt: "begin' < end'" using assms(1) by simp
  have k: "0 < length counters" using assms(3) by arith
  from scan_loop[OF le_refl lt assms(2) k assms(3), of match] False
  show ?thesis by (simp add: FindPattern_def)
qed

lemma advance_mirror:
  "0 \<le> s \<Longrightarrow> advance Reverse (n - bF) s = n - advance Forward bF s"
  by (simp add: advance_def)

lemma reverse_loop_match:
  assumes "q \<le> i" "i \<le> li" "li \<le> length row" "\<forall>j<k. 0 \<le> cs ! j"
  shows "FindPattern_loop Reverse row match q (length row - bF) li i k cs
     = map_option (mirror (length row))
         (FindPattern_loop Forward (rev row) (\<lambda>x y c. match (length row - x) (length row - y) c)
            (length row - q) bF (length row - li) (length row - i) k cs)"
  using assms
proof (induction "i - q" arbitrary: bF i li k cs rule: less_induct)
  case less
  let ?n = "length row"
  let ?m = "\<lambda>x y c. match (?n - x) (?n - y) c"
  note inv = less.prems(4)
  have iln: "i \<le> ?n" using less.prems by simp
  show ?case
  proof (cases "i = q")
    case True
    then show ?thesis
      by (subst FindPattern_loop.simps[of Reverse row match q _ li i k cs],
          subst FindPattern_loop.simps[of Forward "rev row" ?m "?n - q" bF "?n - li" "?n - i" k cs])
         (simp add: before_def)
  next
    case False
    with less.prems have lt: "q < i" by simp
    let ?iR = "getNextSetTo Reverse row i q (\<not> deref Forward (rev row) (?n - i))"
    let ?iF = "getNextSetTo Forward (rev row) (?n - i) (?n - q) (\<not> deref Forward (rev row) (?n - i))"
    have dr: "deref Reverse row i = deref Forward (rev row) (?n - i)"
      using lt iln by (simp add: deref_def rev_nth)
    have iR: "?iR = ?n - ?iF"
      using less.prems(1) iln by (simp add: getNextSetTo_Reverse)
    have le: "?iF \<le> ?n - q" using iln lt
      by (intro getNextSetTo_Forward_le) auto
    have bf: "before Forward (?n - i) (?n - q)" using lt iln by (simp add: before_def)
    have br: "before Reverse i q" using lt by (simp add: before_def)
    have qn: "q \<le> ?n" using less.prems(1) iln by simp
    have qle: "q \<le> ?iR" using iR le qn by arith
    have "?n - i < ?n - q" "?n - q \<le> length (rev row)" using lt iln by auto
    from first_run[OF this] obtain r where "0 < r" "?iF = ?n - i + r"
      by (auto simp: deref_def)
    then have "?iR = ?n - (?n - i + r)" "0 < r" using iR by simp_all
    then have ilt: "?iR < i" using lt iln by arith
    then have dec: "?iR - q < i - q" using qle by arith
    have ile: "?iR \<le> ?n" using iR by arith
    have bk: "?n - ?iR = ?iF" using iR le qn by arith
    have "?iF \<le> ?n" using le by arith
    then have dist: "distance Forward (?n - li) ?iF = distance Reverse li ?iR"
      unfolding iR using less.prems(3) by (intro distance_mirror[symmetric])
    have dpos: "0 \<le> distance Reverse li ?iR"
      using ilt less.prems(2) by (simp add: distance_def)
    have endeq: "?iF = ?n - q \<longleftrightarrow> ?iR = q" using iR le qn by arith
    let ?cs1 = "cs[k := distance Reverse li ?iR]"
    let ?cs2 = "drop 2 ?cs1 @ drop (length cs - 2) ?cs1"
    have L: "FindPattern_loop Reverse row match q (?n - bF) li i k cs =
      (if ?iR \<noteq> q then
         (if length cs \<le> k then None
          else if Suc k = length cs then
            (if match (?n - bF) ?iR ?cs1 then Some ((?n - bF, ?iR), ?cs1)
             else if length cs < 2 then None
             else FindPattern_loop Reverse row match q
                    (advance Reverse (?n - bF) (?cs1 ! 0 + ?cs1 ! 1)) ?iR ?iR (Suc k - 2) ?cs2)
          else FindPattern_loop Reverse row match q (?n - bF) ?iR ?iR (Suc k) ?cs1)
       else (if length cs \<le> k then None else Some ((q, q), ?cs1)))"
      by (subst FindPattern_loop.simps[of Reverse row match q _ li i k cs])
         (simp add: br dr Let_def)
    have R: "FindPattern_loop Forward (rev row) ?m (?n - q) bF (?n - li) (?n - i) k cs =
      (if ?iR \<noteq> q then
         (if length cs \<le> k then None
          else if Suc k = length cs then
            (if match (?n - bF) ?iR ?cs1 then Some ((bF, ?iF), ?cs1)
             else if length cs < 2 then None
             else FindPattern_loop Forward (rev row) ?m (?n - q)
                    (advance Forward bF (?cs1 ! 0 + ?cs1 ! 1)) ?iF ?iF (Suc k - 2) ?cs2)
          else FindPattern_loop Forward (rev row) ?m (?n - q) bF ?iF ?iF (Suc k) ?cs1)
       else (if length cs \<le> k then None else Some ((?n - q, ?n - q), ?cs1)))"
      by (subst FindPattern_loop.simps[of Forward "rev row" ?m "?n - q" bF "?n - li" "?n - i" k cs])
         (simp add: bf dist endeq Let_def iR[symmetric])
    show ?thesis
    proof (cases "?iR = q \<or> length cs \<le> k")
      case True
      then show ?thesis unfolding L R using qn by (auto simp: mirror_def)
    next
      case F1: False
      then have kN: "k < length cs" and nq: "?iR \<noteq> q" by auto
      have inv1: "\<forall>j<Suc k. 0 \<le> ?cs1 ! j"
        using inv dpos kN by (auto simp: nth_list_update less_Suc_eq)
      show ?thesis
      proof (cases "Suc k = length cs")
        case F2: False
        note IH = less.hyps[OF dec qle le_refl ile inv1, of bF, unfolded bk]
        show ?thesis unfolding L R using nq kN F2 IH by simp
      next
        case full: True
        show ?thesis
        proof (cases "match (?n - bF) ?iR ?cs1 \<or> length cs < 2")
          case True
          then show ?thesis unfolding L R using nq kN full
            by (auto simp: mirror_def iR[symmetric])
        next
          case F3: False
          then have N2: "2 \<le> length cs" by simp
          have "0 < Suc k" "1 < Suc k" using N2 full by arith+
          then have "0 \<le> ?cs1 ! 0" "0 \<le> ?cs1 ! 1" using inv1 by blast+
          then have s: "0 \<le> ?cs1 ! 0 + ?cs1 ! 1" by simp
          have inv2: "\<forall>j<Suc k - 2. 0 \<le> ?cs2 ! j"
          proof (intro allI impI)
            fix j assume j: "j < Suc k - 2"
            then have "j < length (drop 2 ?cs1)" using full by simp
            then have "?cs2 ! j = ?cs1 ! (2 + j)" by (simp add: nth_append)
            moreover have "2 + j < Suc k" using j by arith
            ultimately show "0 \<le> ?cs2 ! j" using inv1 by simp
          qed
          note IH = less.hyps[OF dec qle le_refl ile inv2,
              of "advance Forward bF (?cs1 ! 0 + ?cs1 ! 1)", unfolded bk,
              folded advance_mirror[OF s, of ?n bF]]
          show ?thesis unfolding L R using nq kN full F3 IH by simp
        qed
      qed
    qed
  qed
qed

lemma FindPattern_Reverse_match:
  assumes "q \<le> b" "b \<le> length row"
  shows "FindPattern Reverse row b q cs match
     = map_option (mirror (length row))
         (FindPattern Forward (rev row) (length row - b) (length row - q) cs
            (\<lambda>x y c. match (length row - x) (length row - y) c))"
proof (cases "b = q")
  case True
  then show ?thesis using assms by (simp add: FindPattern_def mirror_def)
next
  case False
  then have ne: "length row - b \<noteq> length row - q" using assms by arith
  have bb: "length row - (length row - b) = b" using assms(2) by simp
  have "\<forall>j<0. 0 \<le> cs ! j" by simp
  from reverse_loop_match[OF assms(1) le_refl assms(2) this, of match "length row - b"]
  show ?thesis using False ne by (simp add: FindPattern_def bb)
qed

lemma scan_windows_Reverse:
  "scan_windows Reverse match (n - bF) rs N
     = map_option (\<lambda>(x, y, w). (n - x, n - y, w))
         (scan_windows Forward (\<lambda>x y c. match (n - x) (n - y) c) bF rs N)"
proof (induction "length rs" arbitrary: bF rs rule: less_induct)
  case less
  let ?m = "\<lambda>x y c. match (n - x) (n - y) c"
  show ?case
  proof (cases "N < 2 \<or> length rs \<le> N")
    case True
    then show ?thesis
      by (subst scan_windows.simps, subst scan_windows.simps[of Forward]) simp
  next
    case False
    then have "2 < length rs" by arith
    then have "length (drop 2 rs) < length rs" by simp
    note IH = less.hyps[OF this, of "bF + rs ! 0 + rs ! 1"]
    show ?thesis
      using False IH
      by (subst scan_windows.simps[of Reverse match "n - bF" rs N],
          subst scan_windows.simps[of Forward ?m bF rs N])
         (simp add: advance_Reverse_nat advance_Reverse_nat2 advance_Forward_nat
            advance_Forward_nat2 add.assoc)
  qed
qed

text \<open>
  C4. For every valid range, for \<open>N \<ge> 2\<close> counters and for both iterator types,
  \<open>FindPattern\<close> is the window scan over the run widths of the range. Whenever
  \<open>match\<close> rejects a full window, the next window it is evaluated on starts at the
  rejected window's start advanced by exactly \<open>counters[0] + counters[1]\<close>, the widths
  of its first two runs; its \<open>counters[0..N-3]\<close> are the rejected window's
  \<open>counters[2..N-1]\<close>, and its last two counters are the widths of the next two runs,
  refilled by the continued scan. \<open>match\<close> is an arbitrary predicate of the window's
  start, end and counters, so this holds for every rejection of a scan: the first
  accepted window is returned with its counters, and \<open>(end, end)\<close> when none is.
\<close>

theorem FindPattern_windows:
  assumes "valid_range d row begin' end'" and "2 \<le> length counters"
  shows "(\<forall>x y w. scan_windows d match begin' (runs (traversed d row begin' end')) (length counters)
              = Some (x, y, w)
            \<longrightarrow> FindPattern d row begin' end' counters match = Some ((x, y), map int w))
       \<and> (scan_windows d match begin' (runs (traversed d row begin' end')) (length counters) = None
            \<longrightarrow> (\<exists>cs'. FindPattern d row begin' end' counters match
                        = Some ((end', end'), cs')))"
proof (cases d)
  case Forward
  with assms(1) have v: "begin' \<le> end'" "end' \<le> length row" by (simp_all add: valid_range_def)
  from FindPattern_scan_Forward[OF v assms(2), of match] show ?thesis
    by (simp add: Forward traversed_def)
next
  case Reverse
  let ?n = "length row"
  let ?m = "\<lambda>x y c. match (?n - x) (?n - y) c"
  let ?rs = "runs (traversed Reverse row begin' end')"
  from assms(1) Reverse have v: "end' \<le> begin'" "begin' \<le> ?n" by (simp_all add: valid_range_def)
  then have vF: "?n - begin' \<le> ?n - end'" "?n - end' \<le> length (rev row)" by auto
  have bb: "?n - (?n - begin') = begin'" "?n - (?n - end') = end'" using v by auto
  have rs: "runs (segment (rev row) (?n - begin') (?n - end')) = ?rs"
    by (simp add: segment_rev[OF v] traversed_def)
  note F = FindPattern_scan_Forward[OF vF assms(2), of ?m, unfolded rs]
  note S = scan_windows_Reverse[of match ?n "?n - begin'" ?rs "length counters", unfolded bb]
  note R = FindPattern_Reverse_match[OF v, of counters match]
  show ?thesis
  proof (cases "scan_windows Forward ?m (?n - begin') ?rs (length counters)")
    case None
    with F obtain cs' where "FindPattern Forward (rev row) (?n - begin') (?n - end') counters ?m
        = Some ((?n - end', ?n - end'), cs')" by blast
    then have "FindPattern Reverse row begin' end' counters match = Some ((end', end'), cs')"
      unfolding R by (simp add: mirror_def bb)
    then show ?thesis using None S by (simp add: Reverse)
  next
    case (Some t)
    obtain x y w where t: "t = (x, y, w)" by (cases t) auto
    with F Some have "FindPattern Forward (rev row) (?n - begin') (?n - end') counters ?m
        = Some ((x, y), map int w)" by simp
    then have "FindPattern Reverse row begin' end' counters match
        = Some ((?n - x, ?n - y), map int w)"
      unfolding R by (simp add: mirror_def)
    then show ?thesis using Some S t by (simp add: Reverse)
  qed
qed

theorem FindPattern_windows_witness:
  "valid_range Forward long_row 0 10 \<and> 2 \<le> length [9, 9, 9 :: int]
   \<and> runs (traversed Forward long_row 0 10) = [2, 3, 1, 1, 2, 1]
   \<and> \<not> third_is 2 0 6 [2, 3, 1]
   \<and> FindPattern Forward long_row 0 10 [9, 9, 9] (third_is 2) = Some ((5, 9), [1, 1, 2])
   \<and> valid_range Reverse long_row 10 0
   \<and> runs (traversed Reverse long_row 10 0) = [1, 2, 1, 1, 3, 2]
   \<and> \<not> third_is 3 10 6 [1, 2, 1]
   \<and> FindPattern Reverse long_row 10 0 [9, 9, 9] (third_is 3) = Some ((7, 2), [1, 1, 3])"
proof -
  have vF: "valid_range Forward long_row 0 10" by (simp add: valid_range_def long_row_def)
  have vR: "valid_range Reverse long_row 10 0" by (simp add: valid_range_def long_row_def)
  have N: "2 \<le> length [9, 9, 9 :: int]" by simp
  have rF: "runs (traversed Forward long_row 0 10) = [2, 3, 1, 1, 2, 1]"
    by (simp add: traversed_def segment_def long_row_def)
  have rR: "runs (traversed Reverse long_row 10 0) = [1, 2, 1, 1, 3, 2]"
    by (simp add: traversed_def segment_def long_row_def)
  have sF: "scan_windows Forward (third_is 2) 0 [2, 3, 1, 1, 2, 1] (length [9, 9, 9 :: int])
      = Some (5, 9, [1, 1, 2])"
    by (subst scan_windows.simps, subst scan_windows.simps)
       (simp add: third_is_def advance_def)
  have sR: "scan_windows Reverse (third_is 3) 10 [1, 2, 1, 1, 3, 2] (length [9, 9, 9 :: int])
      = Some (7, 2, [1, 1, 3])"
    by (subst scan_windows.simps, subst scan_windows.simps)
       (simp add: third_is_def advance_def)
  from FindPattern_windows[OF vF N, of "third_is 2", unfolded rF, THEN conjunct1, rule_format, OF sF]
  have a: "FindPattern Forward long_row 0 10 [9, 9, 9] (third_is 2) = Some ((5, 9), [1, 1, 2])"
    by simp
  from FindPattern_windows[OF vR N, of "third_is 3", unfolded rR, THEN conjunct1, rule_format, OF sR]
  have b: "FindPattern Reverse long_row 10 0 [9, 9, 9] (third_is 3) = Some ((7, 2), [1, 1, 3])"
    by simp
  have c: "\<not> third_is 2 0 6 [2, 3, 1]" "\<not> third_is 3 10 6 [1, 2, 1]"
    by (simp_all add: third_is_def)
  from vF vR N rF rR a b c show ?thesis by blast
qed

text \<open>
  C6. \<open>RecordPatternInReverse\<close> on \<open>[begin, end)\<close> is the mirror image of
  \<open>RecordPattern\<close> on the reversed row over the mirrored range
  \<open>[length - end, length - begin)\<close>: the counters are the reversal of the forward
  counters and the range is the mirrored range (also when nothing is found).
\<close>

theorem RecordPatternInReverse_mirror:
  assumes "begin' \<le> end'" "end' \<le> length row"
  shows "RecordPatternInReverse row begin' end' counters
     = map_option (\<lambda>(found, cs). ((length row - snd found, length row - fst found), rev cs))
         (RecordPattern Forward (rev row) (length row - end') (length row - begin') counters)"
  using assms
  by (simp add: RecordPatternInReverse_def RecordPattern_Reverse mirror_def
      option.map_comp comp_def split_def split: option.splits)

theorem RecordPatternInReverse_mirror_witness:
  "(0::nat) \<le> 6 \<and> 6 \<le> length sample_row
   \<and> RecordPatternInReverse sample_row 0 6 [9, 9] = Some ((2, 6), [3, 1])
   \<and> RecordPattern Forward (rev sample_row) 1 7 [9, 9] = Some ((1, 5), [1, 3])"
proof -
  have h: "(0::nat) \<le> 6" "6 \<le> length sample_row" by (simp_all add: sample_row_def)
  have ev: "RecordPattern Forward (rev sample_row) 1 7 [9, 9] = Some ((1, 5), [1, 3])"
    by code_simp
  have l: "length sample_row = 7" by (simp add: sample_row_def)
  from RecordPatternInReverse_mirror[OF h, of "[9, 9]"] ev
  have "RecordPatternInReverse sample_row 0 6 [9, 9] = Some ((2, 6), [3, 1])"
    by (simp add: l)
  with h ev show ?thesis by blast
qed

subsection \<open>Fit scoring\<close>

lemma term_up:
  fixes a d T P p c :: real
  assumes "0 \<le> d" "0 < T" "0 \<le> p" "0 \<le> c" "0 < P" "a = c * P - p * T"
  shows "- (T * d * p + d * a) \<le> T * \<bar>a - d * p\<bar> - (T + d) * \<bar>a\<bar>"
proof (cases "0 \<le> a")
  case True
  have "T * (a - d * p) \<le> T * \<bar>a - d * p\<bar>" using assms(2) by (simp add: mult_left_mono)
  then show ?thesis using True by (simp add: algebra_simps)
next
  case False
  have "0 \<le> d * p" using assms(1,3) by simp
  with False have n: "a - d * p < 0" by simp
  have "0 \<le> d * (c * P)" using assms(1,4,5) by simp
  then have "0 \<le> d * (T * p + a)" by (simp add: assms(6) algebra_simps)
  then show ?thesis using False n by (simp add: algebra_simps)
qed

lemma term_down:
  fixes a d T P p c :: real
  assumes "d \<le> 0" "0 < T" "0 \<le> p" "0 \<le> c" "0 < P" "a = c * P - p * T"
  shows "T * d * p + d * a \<le> T * \<bar>a - d * p\<bar> - (T + d) * \<bar>a\<bar>"
proof (cases "0 \<le> a")
  case True
  have "d * p \<le> 0" using assms(1,3) by (simp add: mult_nonpos_nonneg)
  with True have n: "0 \<le> a - d * p" by simp
  have "d * (c * P) \<le> 0" using assms(1,4,5) by (simp add: mult_nonpos_nonneg)
  then have "d * (T * p + a) \<le> 0" by (simp add: assms(6) algebra_simps)
  then show ?thesis using True n by (simp add: algebra_simps)
next
  case False
  have "T * (- (a - d * p)) \<le> T * \<bar>a - d * p\<bar>" using assms(2) by (simp add: mult_left_mono)
  then show ?thesis using False by (simp add: algebra_simps)
qed

lemma term_self_up:
  fixes a d T P p :: real
  assumes "0 \<le> d" "0 \<le> a" "p \<le> P"
  shows "- (T * d * p + d * a - T * d * P) = T * \<bar>a + d * P - d * p\<bar> - (T + d) * \<bar>a\<bar>"
proof -
  have "0 \<le> d * (P - p)" using assms(1,3) by simp
  then have "0 \<le> a + d * P - d * p" using assms(2) by (simp add: algebra_simps)
  then show ?thesis using assms(2) by (simp add: algebra_simps)
qed

lemma term_self_down:
  fixes a d T P p :: real
  assumes "d \<le> 0" "a \<le> 0" "p \<le> P"
  shows "T * d * p + d * a - T * d * P = T * \<bar>a + d * P - d * p\<bar> - (T + d) * \<bar>a\<bar>"
proof -
  have "d * (P - p) \<le> 0" using assms(1,3) by (simp add: mult_nonpos_nonneg)
  then have "a + d * P - d * p \<le> 0" using assms(2) by (simp add: algebra_simps)
  then show ?thesis using assms(2) by (simp add: algebra_simps)
qed

lemma quotient_step:
  fixes A A' P T U :: real
  assumes "0 < P" "0 < T" "0 < U" "U * A \<le> T * A'"
  shows "A / P / T \<le> A' / P / U"
proof -
  have "A / T \<le> A' / U" using assms(2,3,4) by (simp add: field_simps)
  moreover have "0 \<le> P" using assms(1) by simp
  ultimately have "A / T / P \<le> A' / U / P" by (rule divide_right_mono)
  moreover have "A / T / P = A / P / T" "A' / U / P = A' / P / U" by simp_all
  ultimately show ?thesis by (simp only:)
qed

lemma variance_mono_sum:
  fixes c p :: "nat \<Rightarrow> real" and x' T P d :: real
  assumes j: "j < n" and p: "\<forall>i<n. 0 \<le> p i" and c: "\<forall>i<n. 0 \<le> c i"
    and P: "P = (\<Sum>i<n. p i)" "0 < P" and T: "T = (\<Sum>i<n. c i)" "0 < T"
    and d: "d = x' - c j" and T': "0 < T + d"
    and dir: "(p j * T / P \<le> c j \<and> 0 \<le> d) \<or> (c j \<le> p j * T / P \<and> d \<le> 0)"
  shows "(\<Sum>i<n. \<bar>c i - p i * (T / P)\<bar>) / T
       \<le> (\<Sum>i<n. \<bar>(if i = j then x' else c i) - p i * ((T + d) / P)\<bar>) / (T + d)"
proof -
  define a where "a i = c i * P - p i * T" for i
  define a' where "a' i = a i + (if i = j then d * P else 0) - d * p i" for i
  define s :: real where "s = (if 0 \<le> d then - 1 else 1)"
  have e1: "\<bar>c i - p i * (T / P)\<bar> = \<bar>a i\<bar> / P" for i
  proof -
    have "c i - p i * (T / P) = a i / P" using P(2) by (simp add: a_def field_simps)
    then show ?thesis using P(2) by simp
  qed
  have e2: "\<bar>(if i = j then x' else c i) - p i * ((T + d) / P)\<bar> = \<bar>a' i\<bar> / P" for i
  proof -
    have xd: "x' = c j + d" using d by simp
    have "(if i = j then x' else c i) - p i * ((T + d) / P) = a' i / P"
      using P(2) by (simp add: a_def a'_def xd field_simps)
    then show ?thesis using P(2) by simp
  qed
  have sum0: "(\<Sum>i<n. a i) = 0"
    by (simp add: a_def sum_subtractf P(1) T(1) sum_distrib_right[symmetric])
  have pj: "p j \<le> P" unfolding P(1) using j p by (intro member_le_sum) auto
  have aj: "a j = (c j - p j * T / P) * P" using P(2) by (simp add: a_def field_simps)
  define h where "h i = T * d * p i + d * a i - (if i = j then T * d * P else 0)" for i
  have hsum: "(\<Sum>i<n. h i) = 0"
  proof -
    have "(\<Sum>i<n. h i) = T * d * (\<Sum>i<n. p i) + d * (\<Sum>i<n. a i)
        - (\<Sum>i<n. if i = j then T * d * P else 0)"
      by (simp add: h_def sum_subtractf sum.distrib sum_distrib_left)
    also have "(\<Sum>i<n. if i = j then T * d * P else 0) = T * d * P"
      using j by (simp add: sum.delta)
    finally show ?thesis by (simp add: sum0 P(1))
  qed
  have terms: "(\<Sum>i<n. T * \<bar>a' i\<bar> - (T + d) * \<bar>a i\<bar>) \<ge> 0"
    using dir
  proof
    assume up: "p j * T / P \<le> c j \<and> 0 \<le> d"
    then have aj0: "0 \<le> a j" using P(2) by (simp add: aj)
    have "- h i \<le> T * \<bar>a' i\<bar> - (T + d) * \<bar>a i\<bar>" if "i < n" for i
    proof (cases "i = j")
      case True
      then show ?thesis using term_self_up[of d "a j" "p j" P T] up aj0 pj
        by (simp add: h_def a'_def)
    next
      case False
      then show ?thesis
        using term_up[of d T "p i" "c i" P "a i"] up T(2) P(2) p c that
        by (simp add: h_def a'_def a_def)
    qed
    then have "(\<Sum>i<n. - h i) \<le> (\<Sum>i<n. T * \<bar>a' i\<bar> - (T + d) * \<bar>a i\<bar>)"
      by (intro sum_mono) auto
    then show ?thesis by (simp add: sum_negf hsum)
  next
    assume down: "c j \<le> p j * T / P \<and> d \<le> 0"
    then have aj0: "a j \<le> 0" using P(2) by (simp add: aj mult_le_0_iff)
    have "h i \<le> T * \<bar>a' i\<bar> - (T + d) * \<bar>a i\<bar>" if "i < n" for i
    proof (cases "i = j")
      case True
      then show ?thesis using term_self_down[of d "a j" "p j" P T] down aj0 pj
        by (simp add: h_def a'_def)
    next
      case False
      then show ?thesis
        using term_down[of d T "p i" "c i" P "a i"] down T(2) P(2) p c that
        by (simp add: h_def a'_def a_def)
    qed
    then have "(\<Sum>i<n. h i) \<le> (\<Sum>i<n. T * \<bar>a' i\<bar> - (T + d) * \<bar>a i\<bar>)"
      by (intro sum_mono) auto
    then show ?thesis by (simp add: hsum)
  qed
  then have ineq: "(T + d) * (\<Sum>i<n. \<bar>a i\<bar>) \<le> T * (\<Sum>i<n. \<bar>a' i\<bar>)"
    by (simp add: sum_subtractf sum_distrib_left)
  have L: "(\<Sum>i<n. \<bar>c i - p i * (T / P)\<bar>) = (\<Sum>i<n. \<bar>a i\<bar>) / P"
    by (simp only: e1 sum_divide_distrib)
  have R: "(\<Sum>i<n. \<bar>(if i = j then x' else c i) - p i * ((T + d) / P)\<bar>) = (\<Sum>i<n. \<bar>a' i\<bar>) / P"
    by (simp only: e2 sum_divide_distrib)
  show ?thesis unfolding L R
    using P(2) T(2) T' ineq by (rule quotient_step)
qed

lemma sum_list_zip_nth:
  "length xs = length ys \<Longrightarrow>
   sum_list (map f (zip xs ys)) = (\<Sum>i<length xs. f (xs ! i, ys ! i))"
proof -
  assume l: "length xs = length ys"
  have "sum_list (map f (zip xs ys)) = (\<Sum>i = 0..<length (zip xs ys). map f (zip xs ys) ! i)"
    by (simp add: sum_list_sum_nth)
  also have "\<dots> = (\<Sum>i = 0..<length xs. f (xs ! i, ys ! i))"
    using l by (intro sum.cong) auto
  finally show ?thesis by (simp add: atLeast0LessThan)
qed

lemma real_sum_list_nth:
  "real_of_int (sum_list xs) = (\<Sum>i<length xs. real_of_int (xs ! i))"
  by (simp add: sum_list_sum_nth atLeast0LessThan)

lemma sum_list_update_int:
  "j < length xs \<Longrightarrow> sum_list (xs[j := x]) = sum_list xs + x - (xs ! j :: int)"
proof (induction xs arbitrary: j)
  case Nil
  then show ?case by simp
next
  case (Cons y ys)
  then show ?case by (cases j) auto
qed

lemma deviation_sum:
  assumes "length cs = length ps"
  shows "sum_list (map (deviation u) (zip cs ps))
       = (\<Sum>i<length cs. \<bar>real_of_int (cs ! i) - real_of_int (ps ! i) * u\<bar>)"
  using sum_list_zip_nth[OF assms, of "deviation u"]
  by (simp add: deviation_def expected_width_def)

lemma variance_le_2:
  assumes l: "length cs = length ps" and c: "\<forall>c\<in>set cs. 0 \<le> c" and p: "\<forall>p\<in>set ps. 0 < p"
    and T: "0 < sum_list cs" and P: "0 < sum_list ps"
  shows "sum_list (map (deviation (real_of_int (sum_list cs) / real_of_int (sum_list ps))) (zip cs ps))
           / real_of_int (sum_list cs) \<le> 2"
proof -
  let ?T = "real_of_int (sum_list cs)" and ?P = "real_of_int (sum_list ps)"
  let ?u = "?T / ?P"
  have u: "0 \<le> ?u" using T P by simp
  have "(\<Sum>i<length cs. \<bar>real_of_int (cs ! i) - real_of_int (ps ! i) * ?u\<bar>)
      \<le> (\<Sum>i<length cs. real_of_int (cs ! i) + real_of_int (ps ! i) * ?u)"
  proof (rule sum_mono)
    fix i assume "i \<in> {..<length cs}"
    then have i: "i < length cs" by simp
    then have "0 \<le> cs ! i" "0 < ps ! i" using c p l by (auto simp: all_set_conv_all_nth)
    then have "0 \<le> real_of_int (cs ! i)" "0 \<le> real_of_int (ps ! i)" by simp_all
    moreover from this(2) u have "0 \<le> real_of_int (ps ! i) * ?u" by (rule mult_nonneg_nonneg)
    ultimately show "\<bar>real_of_int (cs ! i) - real_of_int (ps ! i) * ?u\<bar>
        \<le> real_of_int (cs ! i) + real_of_int (ps ! i) * ?u" by simp
  qed
  also have "\<dots> = (\<Sum>i<length cs. real_of_int (cs ! i)) + (\<Sum>i<length cs. real_of_int (ps ! i)) * ?u"
    by (simp only: sum.distrib sum_distrib_right)
  also have "\<dots> = ?T + ?P * ?u"
    by (simp only: real_sum_list_nth l)
  also have "\<dots> = 2 * ?T" using P by simp
  finally have "sum_list (map (deviation ?u) (zip cs ps)) \<le> 2 * ?T"
    by (simp add: deviation_sum[OF l])
  then show ?thesis using T by (simp add: field_simps)
qed

lemma variance_mono_lists:
  assumes l: "length cs = length ps" and c: "\<forall>c\<in>set cs. 0 \<le> c" and p: "\<forall>p\<in>set ps. 0 < p"
    and j: "j < length cs"
    and T: "0 < sum_list cs" and T': "0 < sum_list (cs[j := x'])"
    and away: "moves_away cs ps j x'"
  shows "sum_list (map (deviation (real_of_int (sum_list cs) / real_of_int (sum_list ps))) (zip cs ps))
           / real_of_int (sum_list cs)
       \<le> sum_list (map (deviation (real_of_int (sum_list (cs[j := x'])) / real_of_int (sum_list ps)))
             (zip (cs[j := x']) ps))
           / real_of_int (sum_list (cs[j := x']))"
proof -
  let ?n = "length cs"
  let ?c = "\<lambda>i. real_of_int (cs ! i)" and ?p = "\<lambda>i. real_of_int (ps ! i)"
  let ?T = "real_of_int (sum_list cs)" and ?P = "real_of_int (sum_list ps)"
  let ?d = "real_of_int x' - ?c j"
  have ppos: "0 < ps ! i" if "i < ?n" for i using p l that by (auto simp: all_set_conv_all_nth)
  have "ps \<noteq> []" using j l by auto
  then obtain q qs where "ps = q # qs" by (cases ps) auto
  then have "q \<le> sum_list ps" "0 < q" using p by (auto intro: sum_list_nonneg less_imp_le)
  then have P: "0 < ?P" by simp
  have T'eq: "real_of_int (sum_list (cs[j := x'])) = ?T + ?d"
    using j by (simp add: sum_list_update_int)
  have 1: "\<forall>i<?n. 0 \<le> ?p i" using ppos by (auto intro: less_imp_le)
  have 2: "\<forall>i<?n. 0 \<le> ?c i" using c by (auto simp: all_set_conv_all_nth)
  have 3: "?P = (\<Sum>i<?n. ?p i)" using l by (simp add: real_sum_list_nth)
  have 4: "?T = (\<Sum>i<?n. ?c i)" by (simp add: real_sum_list_nth)
  have 5: "0 < ?T" using T by simp
  have 6: "0 < ?T + ?d" using T' T'eq by simp
  have 7: "(?p j * ?T / ?P \<le> ?c j \<and> 0 \<le> ?d) \<or> (?c j \<le> ?p j * ?T / ?P \<and> ?d \<le> 0)"
    using away by (auto simp: moves_away_def expected_value_def)
  have upd: "real_of_int (cs[j := x'] ! i) = (if i = j then real_of_int x' else ?c i)"
    if "i < ?n" for i using that by (simp add: nth_list_update)
  have "sum_list (map (deviation ((?T + ?d) / ?P)) (zip (cs[j := x']) ps))
      = (\<Sum>i<?n. \<bar>real_of_int (cs[j := x'] ! i) - ?p i * ((?T + ?d) / ?P)\<bar>)"
    using deviation_sum[of "cs[j := x']" ps "(?T + ?d) / ?P"] l by simp
  also have "\<dots> = (\<Sum>i<?n. \<bar>(if i = j then real_of_int x' else ?c i) - ?p i * ((?T + ?d) / ?P)\<bar>)"
    by (intro sum.cong refl) (simp only: upd lessThan_iff)
  finally have R: "sum_list (map (deviation ((?T + ?d) / ?P)) (zip (cs[j := x']) ps))
      = (\<Sum>i<?n. \<bar>(if i = j then real_of_int x' else ?c i) - ?p i * ((?T + ?d) / ?P)\<bar>)" .
  show ?thesis
    unfolding T'eq R deviation_sum[OF l]
    by (rule variance_mono_sum[OF j 1 2 3 P 4 5 refl 6 7])
qed

lemma sum_list_all_zero: "\<forall>x\<in>set xs. f x = (0::real) \<Longrightarrow> sum_list (map f xs) = 0"
  by (induction xs) auto

lemma exact_multiple:
  assumes p: "\<forall>p\<in>set ps. 0 < p" and ne: "ps \<noteq> []" and k: "0 < k" and v: "0 \<le> v"
  shows "PatternMatchVariance_raw (map (\<lambda>p. k * p) ps) ps (length ps) v = 0"
proof -
  let ?cs = "map (\<lambda>p. k * p) ps"
  obtain q qs where "ps = q # qs" using ne by (cases ps) auto
  then have "q \<le> sum_list ps" "0 < q" using p by (auto intro: sum_list_nonneg less_imp_le)
  then have P: "0 < sum_list ps" by simp
  have tot: "sum_list ?cs = k * sum_list ps" by (simp add: sum_list_const_mult)
  have u: "real_of_int (sum_list ?cs) / real_of_int (sum_list ps) = real_of_int k"
    using P by (simp add: tot)
  have dev: "deviation (real_of_int k) cp = 0" if "cp \<in> set (zip ?cs ps)" for cp
  proof -
    from that obtain i where "i < length ps" "cp = (k * ps ! i, ps ! i)"
      by (auto simp: set_zip)
    then show ?thesis by (simp add: deviation_def expected_width_def)
  qed
  then have ratio: "individual_ratio (real_of_int k) cp = 0" if "cp \<in> set (zip ?cs ps)" for cp
    using that by (simp add: individual_ratio_def)
  have nex: "\<not> list_ex (\<lambda>cp. v < individual_ratio (real_of_int k) cp) (zip ?cs ps)"
    using ratio v by (auto simp: list_ex_iff)
  have "sum_list (map (deviation (real_of_int k)) (zip ?cs ps)) = 0"
    using dev by (intro sum_list_all_zero) auto
  then show ?thesis using nex
    unfolding PatternMatchVariance_raw_def Let_def by (simp add: u)
qed

text \<open>
  C5 (amended). For equal-length counters and pattern with positive pattern entries,
  \<open>PatternMatchVariance\<close> returns 0 when the counters are a positive integer multiple of
  the pattern and \<open>maxIndividualVariance\<close> is not negative. When a single counter moves
  away from its expected proportional value while the others stay fixed (counters
  non-negative, totals positive), the result does not decrease, provided the result before
  the move is not the rejection sentinel. Without that proviso the claim fails: the
  sentinel of a rejected position is larger than every score, and moving a counter away
  can bring a rejected position back within \<open>maxIndividualVariance\<close>.
\<close>

theorem PatternMatchVariance_properties:
  assumes "length counters = length pattern" and "\<forall>p\<in>set pattern. 0 < p" and "pattern \<noteq> []"
  shows "(0 < k \<and> counters = map (\<lambda>p. k * p) pattern \<and> 0 \<le> v
            \<longrightarrow> PatternMatchVariance counters pattern v = Some 0)
       \<and> (i < length counters \<and> (\<forall>c\<in>set counters. 0 \<le> c)
            \<and> 0 < sum_list counters \<and> 0 < sum_list (counters[i := x'])
            \<and> moves_away counters pattern i x'
            \<and> PatternMatchVariance counters pattern v \<noteq> Some sentinel
            \<longrightarrow> (\<exists>r r'. PatternMatchVariance counters pattern v = Some r
                   \<and> PatternMatchVariance (counters[i := x']) pattern v = Some r'
                   \<and> r \<le> r'))"
proof (intro conjI impI)
  assume "0 < k \<and> counters = map (\<lambda>p. k * p) pattern \<and> 0 \<le> v"
  then show "PatternMatchVariance counters pattern v = Some 0"
    using exact_multiple[OF assms(2,3), of k v] by (simp add: PatternMatchVariance_def)
next
  assume a: "i < length counters \<and> (\<forall>c\<in>set counters. 0 \<le> c)
            \<and> 0 < sum_list counters \<and> 0 < sum_list (counters[i := x'])
            \<and> moves_away counters pattern i x'
            \<and> PatternMatchVariance counters pattern v \<noteq> Some sentinel"
  let ?far = "counters[i := x']"
  let ?score = "\<lambda>cs. sum_list (map (deviation (real_of_int (sum_list cs) / real_of_int (sum_list pattern)))
                   (zip cs pattern)) / real_of_int (sum_list cs)"
  have raw: "PatternMatchVariance_raw cs pattern (length cs) v = sentinel
      \<or> PatternMatchVariance_raw cs pattern (length cs) v = ?score cs"
    if "length cs = length pattern" for cs
    using that unfolding PatternMatchVariance_raw_def Let_def by simp
  have near: "PatternMatchVariance_raw counters pattern (length counters) v = ?score counters"
    using a raw[OF assms(1)] assms(1) by (auto simp: PatternMatchVariance_def)
  have lf: "length ?far = length pattern" using assms(1) by simp
  have mono: "?score counters \<le> ?score ?far"
    using a by (intro variance_mono_lists[OF assms(1) _ assms(2)]) auto
  obtain q qs where "pattern = q # qs" using assms(3) by (cases pattern) auto
  then have "q \<le> sum_list pattern" "0 < q" using assms(2) by (auto intro: sum_list_nonneg less_imp_le)
  then have P: "0 < sum_list pattern" by simp
  have "?score counters \<le> 2"
    using a P by (intro variance_le_2[OF assms(1) _ assms(2)]) auto
  then have le: "?score counters \<le> sentinel" by (simp add: sentinel_def)
  have "PatternMatchVariance_raw counters pattern (length counters) v
      \<le> PatternMatchVariance_raw ?far pattern (length ?far) v"
    using raw[OF lf] near mono le by auto
  then show "\<exists>r r'. PatternMatchVariance counters pattern v = Some r
                   \<and> PatternMatchVariance (counters[i := x']) pattern v = Some r'
                   \<and> r \<le> r'"
    using assms(1) by (simp add: PatternMatchVariance_def)
qed

theorem PatternMatchVariance_properties_witness:
  "PatternMatchVariance [2, 4, 6] [1, 2, 3] (1/2) = Some 0
   \<and> moves_away [6, 6, 6, 6] [1, 1, 1, 1] 0 9
   \<and> PatternMatchVariance [6, 6, 6, 6] [1, 1, 1, 1] 1 = Some 0
   \<and> PatternMatchVariance [9, 6, 6, 6] [1, 1, 1, 1] 1 = Some (1/6)"
proof -
  have h1: "length [2, 4, 6 :: int] = length [1, 2, 3 :: int]" "\<forall>p\<in>set [1, 2, 3 :: int]. 0 < p"
    "[1, 2, 3] \<noteq> ([] :: int list)" by simp_all
  have h2: "length [6, 6, 6, 6 :: int] = length [1, 1, 1, 1 :: int]" "\<forall>p\<in>set [1, 1, 1, 1 :: int]. 0 < p"
    "[1, 1, 1, 1] \<noteq> ([] :: int list)" by simp_all
  have m: "moves_away [6, 6, 6, 6] [1, 1, 1, 1] 0 9"
    by (simp add: moves_away_def expected_value_def)
  have near: "PatternMatchVariance [6, 6, 6, 6] [1, 1, 1, 1] 1 = Some 0"
    by (simp add: PatternMatchVariance_def PatternMatchVariance_raw_def
        individual_ratio_def deviation_def expected_width_def Let_def)
  have far: "PatternMatchVariance [9, 6, 6, 6] [1, 1, 1, 1] 1 = Some (1/6)"
    by (simp add: PatternMatchVariance_def PatternMatchVariance_raw_def
        individual_ratio_def deviation_def expected_width_def Let_def)
  from PatternMatchVariance_properties[OF h1, where k = 2 and v = "1/2"]
  have a: "PatternMatchVariance [2, 4, 6] [1, 2, 3] (1/2) = Some 0" by simp
  from PatternMatchVariance_properties[OF h2, where i = 0 and x' = 9 and v = 1] m near
  have "\<exists>r r'. PatternMatchVariance [6, 6, 6, 6] [1, 1, 1, 1] 1 = Some r
      \<and> PatternMatchVariance [9, 6, 6, 6] [1, 1, 1, 1] 1 = Some r' \<and> r \<le> r'"
    by (simp add: sentinel_def)
  with a m near far show ?thesis by blast
qed

theorem PatternMatchVariance_counterexample:
  "PatternMatchVariance [4, 9, 9, 3] [1, 1, 1, 1] (1/2) = Some sentinel
   \<and> PatternMatchVariance [3, 9, 9, 3] [1, 1, 1, 1] (1/2) = Some (1/2)
   \<and> moves_away [4, 9, 9, 3] [1, 1, 1, 1] 0 3
   \<and> 1/2 < sentinel
   \<and> PatternMatchVariance [2, 4] [1, 2] (- 1) = Some sentinel"
  by (simp add: PatternMatchVariance_def PatternMatchVariance_raw_def sentinel_def
      individual_ratio_def deviation_def expected_width_def moves_away_def expected_value_def Let_def)

subsection \<open>DecodeDigit\<close>

lemma loop_none_better:
  "\<forall>p\<in>set ps. \<not> score p < best \<Longrightarrow> DecodeDigit_loop score False ps i best bm = bm"
  by (induction ps arbitrary: i) auto

lemma loop_all_worse:
  "\<forall>p\<in>set ps. best < score p \<Longrightarrow> DecodeDigit_loop score req ps i best bm = bm"
  by (induction ps arbitrary: i) auto

lemma loop_invalid_stays:
  "\<forall>p\<in>set ps. best \<le> score p \<Longrightarrow>
   DecodeDigit_loop score req ps i best INVALID_MATCH = INVALID_MATCH"
  by (induction ps arbitrary: i) auto

lemma loop_tie_invalidates:
  "\<forall>p\<in>set ps. best \<le> score p \<Longrightarrow> \<exists>p\<in>set ps. score p = best \<Longrightarrow>
   DecodeDigit_loop score True ps i best bm = INVALID_MATCH"
proof (induction ps arbitrary: i bm)
  case Nil
  then show ?case by simp
next
  case (Cons p ps)
  show ?case
  proof (cases "score p = best")
    case True
    with Cons.prems show ?thesis by (simp add: loop_invalid_stays)
  next
    case False
    with Cons.prems have "\<exists>q\<in>set ps. score q = best" by auto
    with Cons.prems Cons.IH False show ?thesis by auto
  qed
qed

lemma loop_unique_min:
  "j < length ps \<Longrightarrow> score (ps ! j) < best \<Longrightarrow>
   \<forall>l<length ps. l \<noteq> j \<longrightarrow> score (ps ! j) < score (ps ! l) \<Longrightarrow>
   DecodeDigit_loop score req ps i best bm = int (i + j)"
proof (induction ps arbitrary: i best bm j)
  case Nil
  then show ?case by simp
next
  case (Cons p ps)
  show ?case
  proof (cases j)
    case 0
    have "\<forall>q\<in>set ps. score p < score q"
    proof
      fix q assume "q \<in> set ps"
      then obtain l where "l < length ps" "ps ! l = q" by (auto simp: in_set_conv_nth)
      with Cons.prems(3)[rule_format, of "Suc l"] 0 show "score p < score q" by auto
    qed
    with Cons.prems 0 show ?thesis by (simp add: loop_all_worse)
  next
    case (Suc j')
    from Cons.prems(3)[rule_format, of 0] Suc have lt: "score (ps ! j') < score p" by simp
    have uniq: "\<forall>l<length ps. l \<noteq> j' \<longrightarrow> score (ps ! j') < score (ps ! l)"
    proof (intro allI impI)
      fix l assume "l < length ps" "l \<noteq> j'"
      with Cons.prems(3)[rule_format, of "Suc l"] Suc show "score (ps ! j') < score (ps ! l)" by auto
    qed
    from Cons.prems Suc have j': "j' < length ps" and b: "score (ps ! j') < best" by auto
    show ?thesis
      using Cons.IH[OF j' lt uniq] Cons.IH[OF j' b uniq] Suc by (auto simp: Let_def)
  qed
qed


lemma loop_tie_min:
  "j < k \<Longrightarrow> k < length ps \<Longrightarrow> score (ps ! j) = score (ps ! k) \<Longrightarrow>
   score (ps ! j) < best \<Longrightarrow> \<forall>l<length ps. score (ps ! j) \<le> score (ps ! l) \<Longrightarrow>
   DecodeDigit_loop score True ps i best bm = INVALID_MATCH"
proof (induction ps arbitrary: i best bm j k)
  case Nil
  then show ?case by simp
next
  case (Cons p ps)
  from Cons.prems obtain k' where k: "k = Suc k'" "k' < length ps" by (cases k) auto
  let ?m = "score ((p # ps) ! j)"
  have ge: "\<forall>q\<in>set ps. ?m \<le> score q"
  proof
    fix q assume "q \<in> set ps"
    then obtain l where "l < length ps" "ps ! l = q" by (auto simp: in_set_conv_nth)
    with Cons.prems(5)[rule_format, of "Suc l"] show "?m \<le> score q" by auto
  qed
  have mk: "score (ps ! k') = ?m" using Cons.prems(3) k by simp
  have pge: "?m \<le> score p" using Cons.prems(5)[rule_format, of 0] by simp
  show ?case
  proof (cases "score p = ?m")
    case True
    have "ps ! k' \<in> set ps" using k by simp
    with mk True have "\<exists>q\<in>set ps. score q = score p" by auto
    moreover have "\<forall>q\<in>set ps. score p \<le> score q" using ge True by simp
    ultimately have "DecodeDigit_loop score True ps (i + 1) (score p) (int i) = INVALID_MATCH"
      by (rule loop_tie_invalidates[rotated])
    with True Cons.prems(4) show ?thesis by simp
  next
    case False
    with pge have plt: "?m < score p" by simp
    from False obtain j' where j: "j = Suc j'" by (cases j) auto
    have 1: "j' < k'" using Cons.prems(1) j k by simp
    have 3: "score (ps ! j') = score (ps ! k')" using Cons.prems(3) j k by simp
    have 5: "\<forall>l<length ps. score (ps ! j') \<le> score (ps ! l)"
      using Cons.prems(5) j by (metis Suc_less_eq length_Cons nth_Cons_Suc)
    have lt: "score (ps ! j') < score p" using plt j by simp
    have b: "score (ps ! j') < best" using Cons.prems(4) j by simp
    show ?thesis
      using Cons.IH[OF 1 k(2) 3 lt 5] Cons.IH[OF 1 k(2) 3 b 5] by (auto simp: Let_def)
  qed
qed

lemma loop_first_min:
  "j < length ps \<Longrightarrow> score (ps ! j) < best \<Longrightarrow>
   \<forall>l<length ps. score (ps ! j) \<le> score (ps ! l) \<Longrightarrow>
   \<forall>l<j. score (ps ! j) < score (ps ! l) \<Longrightarrow>
   DecodeDigit_loop score False ps i best bm = int (i + j)"
proof (induction ps arbitrary: i best bm j)
  case Nil
  then show ?case by simp
next
  case (Cons p ps)
  show ?case
  proof (cases j)
    case 0
    have "\<forall>q\<in>set ps. \<not> score q < score p"
    proof
      fix q assume "q \<in> set ps"
      then obtain l where "l < length ps" "ps ! l = q" by (auto simp: in_set_conv_nth)
      with Cons.prems(3)[rule_format, of "Suc l"] 0 show "\<not> score q < score p" by auto
    qed
    with Cons.prems 0 show ?thesis by (simp add: loop_none_better)
  next
    case (Suc j')
    from Cons.prems(4)[rule_format, of 0] Suc have lt: "score (ps ! j') < score p" by simp
    have 3: "\<forall>l<length ps. score (ps ! j') \<le> score (ps ! l)"
      using Cons.prems(3) Suc by (metis Suc_less_eq length_Cons nth_Cons_Suc)
    have 4: "\<forall>l<j'. score (ps ! j') < score (ps ! l)"
      using Cons.prems(4) Suc by (metis Suc_less_eq nth_Cons_Suc)
    from Cons.prems Suc have j': "j' < length ps" and b: "score (ps ! j') < best" by auto
    show ?thesis
      using Cons.IH[OF j' lt 3 4] Cons.IH[OF j' b 3 4] Suc by (auto simp: Let_def)
  qed
qed

lemma loop_lower_bound:
  "k \<le> bm \<Longrightarrow> k \<le> int i \<Longrightarrow> k \<le> DecodeDigit_loop score False ps i best bm"
  by (induction ps arbitrary: i best bm) (auto simp: Let_def)

lemma loop_some_better:
  "\<exists>p\<in>set ps. score p < best \<Longrightarrow> 0 \<le> DecodeDigit_loop score False ps i best bm"
proof (induction ps arbitrary: i best bm)
  case Nil
  then show ?case by simp
next
  case (Cons p ps)
  show ?case
  proof (cases "score p < best")
    case True
    then show ?thesis using loop_lower_bound[of 0 "int i" "i + 1" score ps "score p"] by simp
  next
    case False
    with Cons.prems have "\<exists>q\<in>set ps. score q < best" by auto
    with Cons.IH False show ?thesis by simp
  qed
qed

text \<open>
  C1. With \<open>requireUnambiguousMatch = true\<close>, \<open>DecodeDigit\<close> returns "no match"
  (\<open>-1\<close>) whenever two patterns attain the same minimal variance below
  \<open>maxAvgVariance\<close>; it returns the index of the pattern whose variance is the unique
  minimum when that minimum is strictly below \<open>maxAvgVariance\<close>; and from any loop state,
  also one whose best match was invalidated by a tie, a strictly better variance replaces
  the best match by the current index.
\<close>

theorem DecodeDigit_unambiguous:
  fixes pmv :: "'c \<Rightarrow> 'p \<Rightarrow> real \<Rightarrow> real" and counters patterns maxIndividualVariance
  defines "vs \<equiv> variances pmv counters patterns maxIndividualVariance"
  shows "(j < k \<and> k < length patterns \<and> vs ! j = vs ! k \<and> vs ! j < maxAvgVariance
            \<and> (\<forall>l<length patterns. vs ! j \<le> vs ! l)
          \<longrightarrow> DecodeDigit pmv counters patterns maxAvgVariance maxIndividualVariance True
                = INVALID_MATCH)
       \<and> (j < length patterns \<and> vs ! j < maxAvgVariance
            \<and> (\<forall>l<length patterns. l \<noteq> j \<longrightarrow> vs ! j < vs ! l)
          \<longrightarrow> DecodeDigit pmv counters patterns maxAvgVariance maxIndividualVariance True
                = int j)
       \<and> (pmv counters p maxIndividualVariance < bestVariance
          \<longrightarrow> DecodeDigit_loop (\<lambda>p. pmv counters p maxIndividualVariance) True (p # ps) i
                  bestVariance bestMatch
                = DecodeDigit_loop (\<lambda>p. pmv counters p maxIndividualVariance) True ps (i + 1)
                    (pmv counters p maxIndividualVariance) (int i))"
proof (intro conjI impI)
  let ?score = "\<lambda>p. pmv counters p maxIndividualVariance"
  assume a: "j < k \<and> k < length patterns \<and> vs ! j = vs ! k \<and> vs ! j < maxAvgVariance
            \<and> (\<forall>l<length patterns. vs ! j \<le> vs ! l)"
  then show "DecodeDigit pmv counters patterns maxAvgVariance maxIndividualVariance True
                = INVALID_MATCH"
    unfolding DecodeDigit_def vs_def variances_def
    by (intro loop_tie_min[of j k patterns ?score]) auto
next
  let ?score = "\<lambda>p. pmv counters p maxIndividualVariance"
  assume a: "j < length patterns \<and> vs ! j < maxAvgVariance
    \<and> (\<forall>l<length patterns. l \<noteq> j \<longrightarrow> vs ! j < vs ! l)"
  then have "DecodeDigit_loop ?score True patterns 0 maxAvgVariance INVALID_MATCH = int (0 + j)"
    unfolding vs_def variances_def
    by (intro loop_unique_min) auto
  then show "DecodeDigit pmv counters patterns maxAvgVariance maxIndividualVariance True = int j"
    by (simp add: DecodeDigit_def)
next
  assume "pmv counters p maxIndividualVariance < bestVariance"
  then show "DecodeDigit_loop (\<lambda>p. pmv counters p maxIndividualVariance) True (p # ps) i
                  bestVariance bestMatch
                = DecodeDigit_loop (\<lambda>p. pmv counters p maxIndividualVariance) True ps (i + 1)
                    (pmv counters p maxIndividualVariance) (int i)"
    by simp
qed

lemma sample_variances:
  "variances sample_variance 5 [4, 6, 9] 0 = [1/10, 1/10, 4/10]"
  "variances sample_variance 5 [3, 7, 4] 0 = [2/10, 2/10, 1/10]"
  by (simp_all add: variances_def sample_variance_def)

theorem DecodeDigit_unambiguous_witness:
  "DecodeDigit sample_variance 5 [4, 6, 9] (3/10) 0 True = INVALID_MATCH
   \<and> DecodeDigit sample_variance 5 [3, 7, 4] (3/10) 0 True = 2
   \<and> DecodeDigit_loop (\<lambda>p. sample_variance 5 p 0) True [4, 8] 2 (2/10) INVALID_MATCH
       = DecodeDigit_loop (\<lambda>p. sample_variance 5 p 0) True [8] 3 (1/10) 2"
proof -
  have 3: "sample_variance 5 4 0 < 2/10" by (simp add: sample_variance_def)
  from DecodeDigit_unambiguous[where pmv = sample_variance and counters = 5
      and patterns = "[4, 6, 9]" and maxIndividualVariance = 0 and maxAvgVariance = "3/10"
      and j = 0 and k = 1]
  have a: "DecodeDigit sample_variance 5 [4, 6, 9] (3/10) 0 True = INVALID_MATCH"
    by (simp add: sample_variances nth_Cons' All_less_Suc numeral_3_eq_3)
  from DecodeDigit_unambiguous[where pmv = sample_variance and counters = 5
      and patterns = "[3, 7, 4]" and maxIndividualVariance = 0 and maxAvgVariance = "3/10"
      and j = 2]
  have b: "DecodeDigit sample_variance 5 [3, 7, 4] (3/10) 0 True = 2"
    by (simp add: sample_variances nth_Cons' All_less_Suc numeral_3_eq_3)
  from DecodeDigit_unambiguous[where pmv = sample_variance and counters = 5
      and maxIndividualVariance = 0 and p = 4 and bestVariance = "2/10" and ps = "[8]"
      and i = 2 and bestMatch = INVALID_MATCH] 3
  have c: "DecodeDigit_loop (\<lambda>p. sample_variance 5 p 0) True [4, 8] 2 (2/10) INVALID_MATCH
       = DecodeDigit_loop (\<lambda>p. sample_variance 5 p 0) True [8] 3 (1/10) 2"
    by (simp add: sample_variance_def)
  from a b c show ?thesis by blast
qed

text \<open>
  C10. With \<open>requireUnambiguousMatch = false\<close>, \<open>DecodeDigit\<close> returns the smallest
  index among the patterns that attain the minimal variance, when that minimum is
  strictly below \<open>maxAvgVariance\<close>, and it returns \<open>-1\<close> exactly when no pattern scores
  strictly below \<open>maxAvgVariance\<close>.
\<close>

theorem DecodeDigit_first_best:
  fixes pmv :: "'c \<Rightarrow> 'p \<Rightarrow> real \<Rightarrow> real" and counters patterns maxIndividualVariance
  defines "vs \<equiv> variances pmv counters patterns maxIndividualVariance"
  shows "(j < length patterns \<and> vs ! j < maxAvgVariance \<and> (\<forall>l<length patterns. vs ! j \<le> vs ! l)
            \<and> (\<forall>l<j. vs ! j < vs ! l)
          \<longrightarrow> DecodeDigit pmv counters patterns maxAvgVariance maxIndividualVariance False
                = int j)
       \<and> (DecodeDigit pmv counters patterns maxAvgVariance maxIndividualVariance False
            = INVALID_MATCH
          \<longleftrightarrow> (\<forall>l<length patterns. \<not> vs ! l < maxAvgVariance))"
proof (intro conjI impI)
  let ?score = "\<lambda>p. pmv counters p maxIndividualVariance"
  assume a: "j < length patterns \<and> vs ! j < maxAvgVariance \<and> (\<forall>l<length patterns. vs ! j \<le> vs ! l)
            \<and> (\<forall>l<j. vs ! j < vs ! l)"
  then have "DecodeDigit_loop ?score False patterns 0 maxAvgVariance INVALID_MATCH = int (0 + j)"
    unfolding vs_def variances_def
    by (intro loop_first_min) auto
  then show "DecodeDigit pmv counters patterns maxAvgVariance maxIndividualVariance False = int j"
    by (simp add: DecodeDigit_def)
next
  let ?score = "\<lambda>p. pmv counters p maxIndividualVariance"
  show "DecodeDigit pmv counters patterns maxAvgVariance maxIndividualVariance False
          = INVALID_MATCH
          \<longleftrightarrow> (\<forall>l<length patterns. \<not> vs ! l < maxAvgVariance)"
  proof
    assume r: "DecodeDigit pmv counters patterns maxAvgVariance maxIndividualVariance False
       = INVALID_MATCH"
    show "\<forall>l<length patterns. \<not> vs ! l < maxAvgVariance"
    proof (rule ccontr)
      assume "\<not> (\<forall>l<length patterns. \<not> vs ! l < maxAvgVariance)"
      then obtain l where l: "l < length patterns" "?score (patterns ! l) < maxAvgVariance"
        by (auto simp: vs_def variances_def)
      then have "patterns ! l \<in> set patterns" by simp
      with l have "\<exists>p\<in>set patterns. ?score p < maxAvgVariance" by blast
      from loop_some_better[OF this, of 0 INVALID_MATCH] r show False
        by (simp add: DecodeDigit_def INVALID_MATCH_def)
    qed
  next
    assume "\<forall>l<length patterns. \<not> vs ! l < maxAvgVariance"
    then have "\<forall>p\<in>set patterns. \<not> ?score p < maxAvgVariance"
      by (auto simp: in_set_conv_nth vs_def variances_def)
    from loop_none_better[OF this] show
      "DecodeDigit pmv counters patterns maxAvgVariance maxIndividualVariance False
         = INVALID_MATCH"
      by (simp add: DecodeDigit_def)
  qed
qed

theorem DecodeDigit_first_best_witness:
  "DecodeDigit sample_variance 5 [9, 4, 6] (3/10) 0 False = 1
   \<and> DecodeDigit sample_variance 5 [9, 1] (3/10) 0 False = INVALID_MATCH"
proof -
  have v: "variances sample_variance 5 [9, 4, 6] 0 = [4/10, 1/10, 1/10]"
     "variances sample_variance 5 [9, 1] 0 = [4/10, 4/10]"
    by (simp_all add: variances_def sample_variance_def)
  from DecodeDigit_first_best[where pmv = sample_variance and counters = 5
      and patterns = "[9, 4, 6]" and maxIndividualVariance = 0 and maxAvgVariance = "3/10"
      and j = 1]
  have a: "DecodeDigit sample_variance 5 [9, 4, 6] (3/10) 0 False = 1"
    by (simp add: v nth_Cons' All_less_Suc numeral_3_eq_3)
  from DecodeDigit_first_best[where pmv = sample_variance and counters = 5
      and patterns = "[9, 1]" and maxIndividualVariance = 0 and maxAvgVariance = "3/10"]
  have b: "DecodeDigit sample_variance 5 [9, 1] (3/10) 0 False = INVALID_MATCH"
    by (simp add: v nth_Cons' All_less_Suc numeral_2_eq_2)
  from a b show ?thesis by blast
qed

subsection \<open>Narrow/wide classification\<close>

lemma bars_Cons: "bars (w # ws) = w # spaces ws"
  by (induction ws arbitrary: w rule: bars.induct) auto

lemma spaces_Cons: "spaces (w # ws) = bars ws"
  by (induction ws arbitrary: w rule: bars.induct) auto

lemma minmax_loop_folds:
  "minmax_loop ws i m M =
     (if even i then
        (\<lparr>bar = fold min (bars ws) (bar m), space = fold min (spaces ws) (space m)\<rparr>,
         \<lparr>bar = fold max (bars ws) (bar M), space = fold max (spaces ws) (space M)\<rparr>)
      else
        (\<lparr>bar = fold min (spaces ws) (bar m), space = fold min (bars ws) (space m)\<rparr>,
         \<lparr>bar = fold max (spaces ws) (bar M), space = fold max (bars ws) (space M)\<rparr>))"
proof (induction ws arbitrary: i m M)
  case Nil
  then show ?case by simp
next
  case (Cons w ws)
  show ?case
    by (simp add: Cons.IH bars_Cons spaces_Cons bs_get_def bs_set_def min.commute max.commute)
qed

lemma fold_min_Min: "xs \<noteq> [] \<Longrightarrow> fold min xs (65535 :: 16 word) = Min (set xs)"
proof -
  assume ne: "xs \<noteq> []"
  have "(65535 :: 16 word) = - 1" by simp
  then have top: "\<And>x :: 16 word. x \<le> 65535" by (simp only: word_n1_ge)
  have "fold min xs (65535 :: 16 word) = Min (set (65535 # xs))"
    by (simp only: Min.set_eq_fold)
  also have "\<dots> = min 65535 (Min (set xs))" using ne by simp
  also have "\<dots> = Min (set xs)" using top[of "Min (set xs)"] by (simp add: min_def)
  finally show ?thesis .
qed

lemma fold_max_Max: "xs \<noteq> [] \<Longrightarrow> fold max xs (0 :: 16 word) = Max (set xs)"
proof -
  assume ne: "xs \<noteq> []"
  have "fold max xs (0 :: 16 word) = Max (set (0 # xs))"
    by (simp only: Max.set_eq_fold)
  also have "\<dots> = max 0 (Max (set xs))" using ne by simp
  also have "\<dots> = Max (set xs)" by (simp add: max_def)
  finally show ?thesis .
qed


text \<open>
  C7 (amended). \<open>NarrowWideThreshold\<close> returns an invalid threshold for every window in
  which, for the bars or for the spaces, the maximum width exceeds four times the minimum
  width plus one (\<open>max > 4 * (min + 1)\<close>: the 4:1 ratio with the +1 tolerance of the
  code), and it returns the valid threshold \<open>(4, 4)\<close> for every clean 1:3 window whose
  bar widths and space widths both range from 2 to 6, such as \<open>[2, 2, 6, 6]\<close>. A ratio
  above 4:1 alone is not rejected: the window \<open>[2, 3, 9, 3]\<close> has bars 2 and 9 and a valid
  threshold.
\<close>

theorem NarrowWideThreshold_ratio:
  "((bars view \<noteq> [] \<and> 4 * (uint (Min (set (bars view))) + 1) < uint (Max (set (bars view))))
      \<or> (spaces view \<noteq> [] \<and> 4 * (uint (Min (set (spaces view))) + 1) < uint (Max (set (spaces view))))
     \<longrightarrow> \<not> isValid (NarrowWideThreshold view))
   \<and> (bars view \<noteq> [] \<and> spaces view \<noteq> []
        \<and> Min (set (bars view)) = 2 \<and> Max (set (bars view)) = 6
        \<and> Min (set (spaces view)) = 2 \<and> Max (set (spaces view)) = 6
     \<longrightarrow> NarrowWideThreshold view = \<lparr>bar = 4, space = 4\<rparr> \<and> isValid (NarrowWideThreshold view))"
proof (intro conjI impI)
  assume a: "(bars view \<noteq> [] \<and> 4 * (uint (Min (set (bars view))) + 1) < uint (Max (set (bars view))))
      \<or> (spaces view \<noteq> [] \<and> 4 * (uint (Min (set (spaces view))) + 1) < uint (Max (set (spaces view))))"
  obtain m M where mM: "minmax_loop view 0 \<lparr>bar = 65535, space = 65535\<rparr> \<lparr>bar = 0, space = 0\<rparr> = (m, M)"
    by fastforce
  from a have "threshold_rejects m M 0 \<or> threshold_rejects m M 1"
  proof
    assume b: "bars view \<noteq> [] \<and> 4 * (uint (Min (set (bars view))) + 1) < uint (Max (set (bars view)))"
    from mM have "bar m = Min (set (bars view))" "bar M = Max (set (bars view))"
      using b by (auto simp: minmax_loop_folds fold_min_Min fold_max_Max)
    with b show ?thesis by (simp add: threshold_rejects_def bs_get_def)
  next
    assume b: "spaces view \<noteq> [] \<and> 4 * (uint (Min (set (spaces view))) + 1) < uint (Max (set (spaces view)))"
    from mM have "space m = Min (set (spaces view))" "space M = Max (set (spaces view))"
      using b by (auto simp: minmax_loop_folds fold_min_Min fold_max_Max)
    with b show ?thesis by (simp add: threshold_rejects_def bs_get_def)
  qed
  then have "NarrowWideThreshold view = bs_empty"
    by (auto simp: NarrowWideThreshold_def mM Let_def)
  then show "\<not> isValid (NarrowWideThreshold view)"
    by (simp add: isValid_def bs_empty_def)
next
  assume a: "bars view \<noteq> [] \<and> spaces view \<noteq> []
        \<and> Min (set (bars view)) = 2 \<and> Max (set (bars view)) = 6
        \<and> Min (set (spaces view)) = 2 \<and> Max (set (spaces view)) = 6"
  then have mM: "minmax_loop view 0 \<lparr>bar = 65535, space = 65535\<rparr> \<lparr>bar = 0, space = 0\<rparr>
      = (\<lparr>bar = 2, space = 2\<rparr>, \<lparr>bar = 6, space = 6\<rparr>)"
    by (simp add: minmax_loop_folds fold_min_Min fold_max_Max)
  show th: "NarrowWideThreshold view = \<lparr>bar = 4, space = 4\<rparr>"
    by (simp add: NarrowWideThreshold_def mM threshold_rejects_def threshold_value_def bs_get_def
        bs_set_def bs_empty_def Let_def)
  show "isValid (NarrowWideThreshold view)"
    by (simp add: th isValid_def)
qed

theorem NarrowWideThreshold_ratio_witness:
  "\<not> isValid (NarrowWideThreshold [2, 3, 13, 3])
   \<and> NarrowWideThreshold [2, 2, 6, 6] = \<lparr>bar = 4, space = 4\<rparr>
   \<and> isValid (NarrowWideThreshold [2, 2, 6, 6])"
proof -
  have b: "bars [2, 3, 13, 3 :: 16 word] = [2, 13]" by simp
  have "Min (set (bars [2, 3, 13, 3 :: 16 word])) = 2" "Max (set (bars [2, 3, 13, 3 :: 16 word])) = 13"
    unfolding b by simp_all
  then have 1: "bars [2, 3, 13, 3 :: 16 word] \<noteq> []
      \<and> 4 * (uint (Min (set (bars [2, 3, 13, 3 :: 16 word]))) + 1)
          < uint (Max (set (bars [2, 3, 13, 3 :: 16 word])))"
    by simp
  have c: "bars [2, 2, 6, 6 :: 16 word] = [2, 6]" "spaces [2, 2, 6, 6 :: 16 word] = [2, 6]"
    by simp_all
  have 2: "bars [2, 2, 6, 6 :: 16 word] \<noteq> [] \<and> spaces [2, 2, 6, 6 :: 16 word] \<noteq> []
        \<and> Min (set (bars [2, 2, 6, 6 :: 16 word])) = 2 \<and> Max (set (bars [2, 2, 6, 6 :: 16 word])) = 6
        \<and> Min (set (spaces [2, 2, 6, 6 :: 16 word])) = 2
        \<and> Max (set (spaces [2, 2, 6, 6 :: 16 word])) = 6"
    unfolding c by simp
  from NarrowWideThreshold_ratio[of "[2, 3, 13, 3]"] 1
  have "\<not> isValid (NarrowWideThreshold [2, 3, 13, 3])" by blast
  moreover from NarrowWideThreshold_ratio[of "[2, 2, 6, 6]"] 2
  have "NarrowWideThreshold [2, 2, 6, 6] = \<lparr>bar = 4, space = 4\<rparr>
      \<and> isValid (NarrowWideThreshold [2, 2, 6, 6])" by blast
  ultimately show ?thesis by blast
qed

theorem NarrowWideThreshold_ratio_counterexample:
  "4 * uint (Min (set (bars [2, 3, 9, 3]))) < uint (Max (set (bars [2, 3, 9, 3])))
   \<and> isValid (NarrowWideThreshold [2, 3, 9, 3])"
proof -
  have b: "bars [2, 3, 9, 3 :: 16 word] = [2, 9]" by simp
  have "Min (set (bars [2, 3, 9, 3 :: 16 word])) = 2" "Max (set (bars [2, 3, 9, 3 :: 16 word])) = 9"
    unfolding b by simp_all
  moreover have "isValid (NarrowWideThreshold [2, 3, 9, 3])"
    by (simp add: NarrowWideThreshold_def threshold_rejects_def threshold_value_def bs_get_def
        bs_set_def bs_empty_def isValid_def Let_def)
  ultimately show ?thesis by simp
qed

text \<open>
  C8 (amended). \<open>ToNarrowWidePattern\<close> classifies bars against the bar threshold and
  spaces against the space threshold. In \<open>[2, 6, 2, 6]\<close> both bars are 2 and both spaces
  are 6, so every element is narrow and the result is \<open>0\<close>, not \<open>0b0101\<close>; the window
  \<open>[2, 2, 6, 6]\<close> (bars 2 and 6, spaces 2 and 6) yields \<open>0b0011\<close>, most significant bit
  first.
\<close>

theorem ToNarrowWidePattern_example:
  "ToNarrowWidePattern [2, 6, 2, 6] = 0 \<and> ToNarrowWidePattern [2, 2, 6, 6] = 3"
  by (simp add: ToNarrowWidePattern_def NarrowWideThreshold_def threshold_rejects_def
      threshold_value_def bs_get_def bs_set_def bs_empty_def isValid_def Let_def)

theorem ToNarrowWidePattern_counterexample:
  "ToNarrowWidePattern [2, 6, 2, 6] \<noteq> 5"
  by (simp add: ToNarrowWidePattern_def NarrowWideThreshold_def threshold_rejects_def
      threshold_value_def bs_get_def bs_set_def bs_empty_def isValid_def Let_def)

end
